theory Spec2Isabelle
  imports Complex_Main "HOL-Library.Multiset"
begin

section \<open>Numbers, errors and configuration\<close>

text \<open>
  The beacon scorer of \<^verbatim>\<open>get_beacon_info.py\<close> computes on Python floats and numpy
  \<^verbatim>\<open>float64\<close> values. They are modelled as real numbers; the one special value the
  scorer can produce from ordinary input, numpy's \<^verbatim>\<open>nan\<close> (the median of an empty list,
  the quotient of two zeros), is the value \<open>None\<close> of the type \<open>npfloat\<close>. Arithmetic on \<open>npfloat\<close> propagates
  \<^verbatim>\<open>nan\<close>, and every ordering comparison with \<^verbatim>\<open>nan\<close> is false, while \<^verbatim>\<open>!=\<close> is true.
  Python integers are \<open>int\<close>.
\<close>

type_synonym npfloat = "real option"

definition np_add :: "npfloat \<Rightarrow> npfloat \<Rightarrow> npfloat" where
  "np_add a b = (case (a, b) of (Some x, Some y) \<Rightarrow> Some (x + y) | _ \<Rightarrow> None)"

definition np_sub :: "npfloat \<Rightarrow> npfloat \<Rightarrow> npfloat" where
  "np_sub a b = (case (a, b) of (Some x, Some y) \<Rightarrow> Some (x - y) | _ \<Rightarrow> None)"

definition np_mul :: "npfloat \<Rightarrow> npfloat \<Rightarrow> npfloat" where
  "np_mul a b = (case (a, b) of (Some x, Some y) \<Rightarrow> Some (x * y) | _ \<Rightarrow> None)"

text \<open>
  Division of numpy floats. A zero divisor gives \<^verbatim>\<open>nan\<close> for \<^verbatim>\<open>0/0\<close> and an infinity
  otherwise; the scorers divide only behind a guard that makes the divisor non-zero, so
  the zero-divisor case is given the value \<open>None\<close> and is never reached by them.
\<close>

definition np_div :: "npfloat \<Rightarrow> npfloat \<Rightarrow> npfloat" where
  "np_div a b = (case (a, b) of
     (Some x, Some y) \<Rightarrow> (if y = 0 then None else Some (x / y))
   | _ \<Rightarrow> None)"

definition np_abs :: "npfloat \<Rightarrow> npfloat" where
  "np_abs a = (case a of Some x \<Rightarrow> Some \<bar>x\<bar> | None \<Rightarrow> None)"

definition np_ge :: "npfloat \<Rightarrow> npfloat \<Rightarrow> bool" where
  "np_ge a b = (case (a, b) of (Some x, Some y) \<Rightarrow> y \<le> x | _ \<Rightarrow> False)"

definition np_gt :: "npfloat \<Rightarrow> npfloat \<Rightarrow> bool" where
  "np_gt a b = (case (a, b) of (Some x, Some y) \<Rightarrow> y < x | _ \<Rightarrow> False)"

definition np_lt :: "npfloat \<Rightarrow> npfloat \<Rightarrow> bool" where
  "np_lt a b = (case (a, b) of (Some x, Some y) \<Rightarrow> x < y | _ \<Rightarrow> False)"

definition np_ne :: "npfloat \<Rightarrow> npfloat \<Rightarrow> bool" where
  "np_ne a b = (case (a, b) of (Some x, Some y) \<Rightarrow> x \<noteq> y | _ \<Rightarrow> True)"

definition isnan :: "npfloat \<Rightarrow> bool" where
  "isnan a = (a = None)"

text \<open>\<^verbatim>\<open>np.round\<close> rounds to the nearest integer and a tie to the even neighbour.\<close>

definition np_round :: "real \<Rightarrow> real" where
  "np_round x = (let f = \<lfloor>x\<rfloor>; d = x - of_int f in
     if d < 1 / 2 then of_int f
     else if 1 / 2 < d then of_int (f + 1)
     else if even f then of_int f else of_int (f + 1))"

text \<open>\<^verbatim>\<open>math.ceil\<close> and \<^verbatim>\<open>np.ceil\<close>, with the result read as a number again.\<close>

definition np_ceil :: "real \<Rightarrow> real" where
  "np_ceil x = of_int \<lceil>x\<rceil>"

text \<open>Python's \<^verbatim>\<open>int(x)\<close> on a float truncates towards zero.\<close>

definition py_int :: "real \<Rightarrow> int" where
  "py_int x = (if 0 \<le> x then \<lfloor>x\<rfloor> else \<lceil>x\<rceil>)"

text \<open>
  Every \<^verbatim>\<open>exit(1)\<close> of the source is an error value named after the message printed before
  it; the remaining constructors are the Python exceptions the code can raise.
\<close>

datatype error =
    InvalidDurationThresholds
  | BimodalMinHoursInvalid
  | ConsistencyIdealHoursInvalid
  | MaxLessOrEqualMin
  | HistMaxLessOrEqualHistMin
  | QuartileInputEmpty
  | MadmInputEmpty
  | NotEnoughItems
  | NoConnectionPair
  | PyIndexError
  | PyKeyError
  | PyTypeError
  | PyZeroDivisionError

text \<open>The module-level thresholds, passed explicitly; \<open>default_config\<close> holds the values
  the module assigns.\<close>

record config =
  bimodalBucketSize :: real
  bimodalOutlierRemoval :: int
  bimodalMinHours :: int
  durMinHours :: int
  consistencyIdealHours :: int
  histModeSensitivity :: real

definition default_config :: config where
  "default_config = \<lparr> bimodalBucketSize = 5 / 100, bimodalOutlierRemoval = 1,
     bimodalMinHours = 11, durMinHours = 6, consistencyIdealHours = 12,
     histModeSensitivity = 5 / 100 \<rparr>"

section \<open>Beacon score aggregation\<close>

text \<open>The composite score computed at the end of \<^verbatim>\<open>analyze\<close>.\<close>

definition analyze_score :: "real \<Rightarrow> real \<Rightarrow> real \<Rightarrow> real \<Rightarrow> real" where
  "analyze_score tsScore dsScore durScore histScore =
     np_round (((tsScore * (25 / 100)) + (dsScore * (25 / 100)) +
                (durScore * (25 / 100)) + (histScore * (25 / 100))) * 1000) / 1000"

section \<open>Duration score\<close>

definition getDurationScore ::
  "config \<Rightarrow> real \<Rightarrow> real \<Rightarrow> real \<Rightarrow> real \<Rightarrow> int \<Rightarrow> int \<Rightarrow> error + (real \<times> real \<times> real)" where
  "getDurationScore cfg dmin dmax histMin histMax totalBars longestConsecutiveRun =
     (if durMinHours cfg < 1 \<or> consistencyIdealHours cfg < 1 then Inl InvalidDurationThresholds
      else if durMinHours cfg < 1 then Inl BimodalMinHoursInvalid
      else if consistencyIdealHours cfg < 1 then Inl ConsistencyIdealHoursInvalid
      else if dmax \<le> dmin then Inl MaxLessOrEqualMin
      else if histMax \<le> histMin then Inl HistMaxLessOrEqualHistMin
      else if durMinHours cfg \<le> totalBars then
        (let coverage = np_ceil (((histMax - histMin) / (dmax - dmin)) * 1000) / 1000;
             coverage = (if 1 < coverage then 1 else coverage);
             consistency = np_ceil ((of_int longestConsecutiveRun /
                             of_int (consistencyIdealHours cfg)) * 1000) / 1000;
             consistency = (if 1 < consistency then 1 else consistency)
         in Inr (coverage, consistency, max coverage consistency))
      else Inr (0, 0, 0))"


section \<open>Medians, quartile skewness and median absolute deviation\<close>

text \<open>
  \<^verbatim>\<open>np.median\<close> of a list: the list is ordered, the middle element is taken when the
  length is odd and the mean of the two middle elements when it is even; the median of an
  empty list is \<^verbatim>\<open>nan\<close>.
\<close>

definition np_median :: "real list \<Rightarrow> npfloat" where
  "np_median a = (let s = sort a; n = length s in
     if n = 0 then None
     else if n mod 2 = 1 then Some (s ! (n div 2))
     else Some ((s ! (n div 2 - 1) + s ! (n div 2)) / 2))"

definition calculateBowleySkewness :: "real list \<Rightarrow> error + (npfloat \<times> npfloat)" where
  "calculateBowleySkewness data =
     (let inputLength = length data in
      if inputLength = 0 then Inl QuartileInputEmpty
      else
        (let cutoff1 = (if inputLength mod 2 = 0 then inputLength div 2
                        else (inputLength - 1) div 2);
             cutoff2 = (if inputLength mod 2 = 0 then inputLength div 2 else cutoff1 + 1);
             q1 = np_median (sort (take cutoff1 data));
             q2 = np_median (sort data);
             q3 = np_median (sort (drop cutoff2 data));
             num = np_sub (np_add q1 q3) (np_mul (Some 2) q2);
             den = np_sub q3 q1;
             skewness = (if np_ge den (Some 10) \<and> np_ne q2 q1 \<and> np_ne q2 q3
                         then np_div num den else Some 0);
             score = np_sub (Some 1) (np_abs skewness)
         in Inr (skewness, score)))"

text \<open>
  The median absolute deviation. The median of the non-empty data is a number; the branch
  for a \<^verbatim>\<open>nan\<close> median follows the code all the same (deviations and their median are
  \<^verbatim>\<open>nan\<close>, the test \<^verbatim>\<open>median >= 1\<close> fails and the default score is kept).
\<close>

definition calculateMedianAbsoluteDeviation :: "real list \<Rightarrow> real \<Rightarrow> error + (npfloat \<times> real)" where
  "calculateMedianAbsoluteDeviation data defaultScore =
     (if length data = 0 then Inl MadmInputEmpty
      else
        (let dataSorted = sort data in
         case np_median dataSorted of
           None \<Rightarrow> Inr (None, if defaultScore < 0 then 0 else defaultScore)
         | Some median \<Rightarrow>
             (let deviations = map (\<lambda>val. \<bar>val - median\<bar>) dataSorted;
                  mad = np_median deviations;
                  score = (if 1 \<le> median then np_div (np_sub (Some median) mad) (Some median)
                           else Some defaultScore);
                  score = (if np_lt score (Some 0) \<or> isnan score then 0 else the score)
              in Inr (mad, score))))"

section \<open>Distinct values and their counts\<close>

text \<open>The dictionary \<^verbatim>\<open>countsMap\<close> is a map from numbers to counts.\<close>

definition count_incr :: "(real \<rightharpoonup> int) \<Rightarrow> real \<Rightarrow> (real \<rightharpoonup> int)" where
  "count_incr countsMap k =
     (case countsMap k of Some c \<Rightarrow> countsMap(k \<mapsto> c + 1) | None \<Rightarrow> countsMap(k \<mapsto> 1))"

text \<open>The scan over \<^verbatim>\<open>sortedIn[1:]\<close>.\<close>

fun distinct_scan ::
  "real \<Rightarrow> real list \<Rightarrow> (real \<rightharpoonup> int) \<Rightarrow> real list \<Rightarrow> real list \<times> (real \<rightharpoonup> int)" where
  "distinct_scan lastNumber distinctNumbers countsMap [] = (distinctNumbers, countsMap)"
| "distinct_scan lastNumber distinctNumbers countsMap (currentNumber # rest) =
     distinct_scan currentNumber
       (if lastNumber \<noteq> currentNumber then distinctNumbers @ [currentNumber] else distinctNumbers)
       (count_incr countsMap currentNumber) rest"

text \<open>The scan over the distinct numbers that fills \<^verbatim>\<open>countsArray\<close> and finds the mode.\<close>

fun mode_scan ::
  "(real \<rightharpoonup> int) \<Rightarrow> real list \<Rightarrow> int list \<Rightarrow> real \<Rightarrow> int \<Rightarrow> error + (int list \<times> real \<times> int)" where
  "mode_scan countsMap [] countsArray mode maxCount = Inr (countsArray, mode, maxCount)"
| "mode_scan countsMap (number # rest) countsArray mode maxCount =
     (case countsMap number of
        None \<Rightarrow> Inl PyKeyError
      | Some cnt \<Rightarrow>
          (if maxCount < cnt then mode_scan countsMap rest (countsArray @ [cnt]) number cnt
           else mode_scan countsMap rest (countsArray @ [cnt]) mode maxCount))"

definition calculateDistinctCounts ::
  "real list \<Rightarrow> error + (real list \<times> int list \<times> real \<times> int)" where
  "calculateDistinctCounts sortedIn =
     (if length sortedIn < 2 then Inl NotEnoughItems
      else
        (case sort sortedIn of
           [] \<Rightarrow> Inl PyIndexError
         | lastNumber # rest \<Rightarrow>
             (let (distinctNumbers, countsMap) =
                    distinct_scan lastNumber [lastNumber] (count_incr Map.empty lastNumber) rest
              in case distinctNumbers of
                   [] \<Rightarrow> Inl PyIndexError
                 | mode # _ \<Rightarrow>
                     (case countsMap mode of
                        None \<Rightarrow> Inl PyKeyError
                      | Some maxCount \<Rightarrow>
                          (case mode_scan countsMap distinctNumbers [] mode maxCount of
                             Inl e \<Rightarrow> Inl e
                           | Inr (countsArray, mode', maxCount') \<Rightarrow>
                               Inr (distinctNumbers, countsArray, mode', maxCount'))))))"

section \<open>Timing score\<close>

text \<open>The search for the first positive delta; the index stays 0 when there is none.\<close>

fun findNonZeroIndex :: "real list \<Rightarrow> nat \<Rightarrow> nat" where
  "findNonZeroIndex [] i = 0"
| "findNonZeroIndex (x # xs) i = (if 0 < x then i else findNonZeroIndex xs (Suc i))"

text \<open>
  \<^verbatim>\<open>getTsScore\<close> fills a list of \<^verbatim>\<open>len(sortedData) - 1\<close> slots, initially \<^verbatim>\<open>None\<close>, for
  the indices below \<^verbatim>\<open>tsLength\<close>. A \<^verbatim>\<open>tsLength\<close> beyond the last pair reads past the end
  of the data (IndexError); a smaller one leaves \<^verbatim>\<open>None\<close> behind, which \<^verbatim>\<open>sorted\<close> refuses
  to compare once there are two slots (TypeError), and which the distinct-value counter
  rejects as too short otherwise. \<^verbatim>\<open>analyze\<close> always passes \<^verbatim>\<open>len(tsData) - 1\<close>.
\<close>

definition getTsScore :: "real list \<Rightarrow> int \<Rightarrow> error + (npfloat \<times> npfloat \<times> npfloat)" where
  "getTsScore sortedData tsLength =
     (let n = int (length sortedData) in
      if 1 \<le> tsLength \<and> n - 1 < tsLength then Inl PyIndexError
      else if tsLength < n - 1 then (if 2 \<le> n - 1 then Inl PyTypeError else Inl NotEnoughItems)
      else
        (let deltaTimesFull =
               map (\<lambda>i. real_of_int (py_int (sortedData ! (i + 1)) - py_int (sortedData ! i)))
                   [0 ..< length sortedData - 1];
             deltaTimesFull = sort deltaTimesFull
         in case calculateDistinctCounts deltaTimesFull of
              Inl e \<Rightarrow> Inl e
            | Inr (intervals, intervalCounts, tsMode, tsModeCount) \<Rightarrow>
                (let nonZeroIndex = findNonZeroIndex deltaTimesFull 0;
                     deltaTimes = drop nonZeroIndex deltaTimesFull
                 in case calculateBowleySkewness deltaTimes of
                      Inl e \<Rightarrow> Inl e
                    | Inr (tsSkew, tsSkewScore) \<Rightarrow>
                        (case calculateMedianAbsoluteDeviation deltaTimes 1 of
                           Inl e \<Rightarrow> Inl e
                         | Inr (tsMadm, tsMadmScore) \<Rightarrow>
                             (let tsScore =
                                    (case np_add tsSkewScore (Some tsMadmScore) of
                                       None \<Rightarrow> None
                                     | Some t \<Rightarrow> Some (np_ceil ((t / 2) * 1000) / 1000))
                              in Inr (tsScore, tsSkew, tsMadm))))))"

text \<open>The size score scores the sorted byte counts themselves, with default score 0.\<close>

definition getDsScore :: "real list \<Rightarrow> real \<Rightarrow> error + (npfloat \<times> npfloat \<times> npfloat)" where
  "getDsScore data mode =
     (case calculateBowleySkewness data of
        Inl e \<Rightarrow> Inl e
      | Inr (dsSkew, dsSkewScore) \<Rightarrow>
          (case calculateMedianAbsoluteDeviation data 0 of
             Inl e \<Rightarrow> Inl e
           | Inr (dsMadm, dsMadmScore) \<Rightarrow>
               (let dsScore =
                      (case np_add dsSkewScore (Some dsMadmScore) of
                         None \<Rightarrow> None
                       | Some t \<Rightarrow> Some (np_round ((t / 2) * 1000) / 1000))
                in Inr (dsScore, dsSkew, dsMadm))))"

section \<open>The quartile skewness as the specification words it\<close>

text \<open>
  These definitions follow the wording of the specification, for comparison with
  \<open>calculateBowleySkewness\<close>: the halves of an ascending sequence, the median of an ascending
  sequence (undefined, \<open>None\<close>, when it is empty), and the guarded skewness.
\<close>

definition spec_lower_half :: "real list \<Rightarrow> real list" where
  "spec_lower_half xs = (let n = length xs in
     if even n then take (n div 2) xs else take ((n - 1) div 2) xs)"

definition spec_upper_half :: "real list \<Rightarrow> real list" where
  "spec_upper_half xs = (let n = length xs in
     if even n then drop (n - n div 2) xs else drop ((n - 1) div 2 + 1) xs)"

definition spec_median :: "real list \<Rightarrow> real option" where
  "spec_median xs = (let n = length xs in
     if n = 0 then None
     else if odd n then Some (xs ! (n div 2))
     else Some ((xs ! (n div 2 - 1) + xs ! (n div 2)) / 2))"

definition spec_skewness :: "real list \<Rightarrow> real" where
  "spec_skewness xs =
     (case (spec_median (spec_lower_half xs), spec_median xs, spec_median (spec_upper_half xs)) of
        (Some q1, Some q2, Some q3) \<Rightarrow>
          (if 10 \<le> q3 - q1 \<and> q2 \<noteq> q1 \<and> q2 \<noteq> q3 then (q1 + q3 - 2 * q2) / (q3 - q1) else 0)
      | _ \<Rightarrow> 0)"

section \<open>Histogram of connection times\<close>

text \<open>
  \<^verbatim>\<open>createBuckets\<close> (the parameter \<^verbatim>\<open>size\<close> is \<open>bsize\<close> here): \<open>bsize + 1\<close> dividers,
  the first at \<open>start\<close>, the interior ones a whole step apart, the last at the floor of \<open>stop\<close>. With \<open>bsize = 0\<close> the step divides
  by zero.
\<close>

definition createBuckets :: "real \<Rightarrow> real \<Rightarrow> nat \<Rightarrow> error + real list" where
  "createBuckets start stop bsize =
     (let total = bsize + 1 in
      if total - 1 = 0 then Inl PyZeroDivisionError
      else
        (let step = \<lfloor>real_of_int (\<lfloor>stop\<rfloor> - \<lfloor>start\<rfloor>) / real (total - 1)\<rfloor>;
             bucketDivs = start # map (\<lambda>i. start + real i * real_of_int step) [1 ..< total]
         in Inr (bucketDivs[total - 1 := real_of_int \<lfloor>stop\<rfloor>])))"

text \<open>
  The inner loop of \<^verbatim>\<open>createHistogram\<close>: the first \<open>j\<close> from \<open>j\<close> up to (not including)
  \<open>len(bucketDivs) - 1\<close> with \<open>entry < bucketDivs[j + 1]\<close>, if there is one.
\<close>

function find_bucket :: "real list \<Rightarrow> real \<Rightarrow> nat \<Rightarrow> nat option" where
  "find_bucket bucketDivs entry j =
     (if j < length bucketDivs - 1
      then (if entry < bucketDivs ! (j + 1) then Some j else find_bucket bucketDivs entry (j + 1))
      else None)"
  by pat_completeness auto
termination
  by (relation "measure (\<lambda>(bucketDivs, entry, j). length bucketDivs - 1 - j)") auto

text \<open>
  The loop over the timestamps, with the cursor \<open>i\<close>, the current upper divider \<open>bucket\<close>
  and the frequencies as state. When no later bucket takes the entry, the cursor stays and
  its bucket is incremented.
\<close>

fun histogram_scan :: "real list \<Rightarrow> nat \<Rightarrow> real \<Rightarrow> int list \<Rightarrow> real list \<Rightarrow> int list" where
  "histogram_scan bucketDivs i bucket freqList [] = freqList"
| "histogram_scan bucketDivs i bucket freqList (entry # rest) =
     (if entry < bucket
      then histogram_scan bucketDivs i bucket (freqList[i := freqList ! i + 1]) rest
      else (case find_bucket bucketDivs entry (i + 1) of
              Some j \<Rightarrow> histogram_scan bucketDivs j (bucketDivs ! (j + 1))
                          (freqList[j := freqList ! j + 1]) rest
            | None \<Rightarrow> histogram_scan bucketDivs i bucket (freqList[i := freqList ! i + 1]) rest))"

text \<open>
  The frequency statistics. \<^verbatim>\<open>freqCount\<close> is a dictionary in insertion order, kept as an
  association list: \<open>freqCount_incr\<close> adds one to the count at a key or appends the key
  with count 1.
\<close>

fun freqCount_incr :: "(int \<times> int) list \<Rightarrow> int \<Rightarrow> (int \<times> int) list" where
  "freqCount_incr [] k = [(k, 1)]"
| "freqCount_incr ((k', v) # rest) k =
     (if k' = k then (k', v + 1) # rest else (k', v) # freqCount_incr rest k)"

text \<open>The first loop: the number of active buckets and the largest frequency.\<close>

fun bars_scan :: "int \<Rightarrow> int \<Rightarrow> int list \<Rightarrow> int \<times> int" where
  "bars_scan largestConnCount totalBars [] = (largestConnCount, totalBars)"
| "bars_scan largestConnCount totalBars (item # rest) =
     bars_scan (if largestConnCount < item then item else largestConnCount)
               (if 0 < item then totalBars + 1 else totalBars) rest"

text \<open>
  The second loop runs over the indices \<open>0 .. 2 * len - 1\<close>, reading the frequencies
  circularly; the state is the longest run, the current run and the dictionary, which is
  filled during the first pass only.
\<close>

definition run_step ::
  "int list \<Rightarrow> real \<Rightarrow> int \<times> int \<times> (int \<times> int) list \<Rightarrow> nat \<Rightarrow> int \<times> int \<times> (int \<times> int) list" where
  "run_step freqList bucketSize st i =
     (case st of (longestRun, currentRun, freqCount) \<Rightarrow>
        (let freqListLen = length freqList;
             item = freqList ! (i mod freqListLen);
             longestRun' = (if 0 < item then longestRun
                            else if longestRun < currentRun then currentRun else longestRun);
             currentRun' = (if 0 < item then currentRun + 1 else 0);
             freqCount' = (if i < freqListLen \<and> 0 < item
                           then freqCount_incr freqCount
                                  (py_int (real_of_int \<lfloor>real_of_int item / bucketSize\<rfloor> * bucketSize))
                           else freqCount)
         in (longestRun', currentRun', freqCount')))"

definition getFrequencyCounts :: "config \<Rightarrow> int list \<Rightarrow> (int \<times> int) list \<times> int \<times> int" where
  "getFrequencyCounts cfg freqList =
     (let (largestConnCount, totalBars) = bars_scan 0 0 freqList;
          bucketSize = np_ceil (real_of_int largestConnCount * histModeSensitivity cfg);
          freqListLen = length freqList;
          (longestRun, currentRun, freqCount) =
             foldl (run_step freqList bucketSize) (0, 0, []) [0 ..< freqListLen * 2];
          longestRun = (if longestRun < currentRun then currentRun else longestRun);
          longestRun = (if int freqListLen < longestRun then int freqListLen else longestRun)
      in (freqCount, totalBars, longestRun))"

definition createHistogram ::
  "config \<Rightarrow> real list \<Rightarrow> real list \<Rightarrow> error + (int list \<times> (int \<times> int) list \<times> int \<times> int)" where
  "createHistogram cfg bucketDivs sortedData =
     (if length bucketDivs < 2 then Inl PyIndexError
      else
        (let i = 0;
             bucket = bucketDivs ! (i + 1);
             freqList = replicate (length bucketDivs - 1) 0;
             freqList = histogram_scan bucketDivs i bucket freqList sortedData;
             (freqCount, totalBars, longestRun) = getFrequencyCounts cfg freqList
         in Inr (freqList, freqCount, totalBars, longestRun)))"

section \<open>Periodicity score\<close>

text \<open>
  The coefficient-of-variation score. The mean is a Python float division (an empty list
  raises ZeroDivisionError); the quotient \<^verbatim>\<open>sd / np.abs(freqMean)\<close> is a numpy division, so a
  zero mean gives \<^verbatim>\<open>nan\<close> when the deviation is zero too (every later comparison is false
  and \<^verbatim>\<open>nan\<close> is returned) and an infinity otherwise (\<^verbatim>\<open>cv > 1\<close> holds and the score is 0).
\<close>

definition calculateCoefficientOfVariationScore :: "int list \<Rightarrow> error + npfloat" where
  "calculateCoefficientOfVariationScore freqList =
     (if length freqList = 0 then Inl PyZeroDivisionError
      else
        (let total = sum_list freqList;
             freqMean = real_of_int total / real (length freqList);
             sd = sum_list (map (\<lambda>f. (real_of_int f - freqMean) ^ 2) freqList);
             sd = sqrt (sd / real (length freqList))
         in if freqMean = 0 then (if sd = 0 then Inr None else Inr (Some 0))
            else
              (let cv = sd / \<bar>freqMean\<bar>;
                   cvScore = (if 1 < cv then 0 else np_round ((1 - cv) * 1000) / 1000);
                   cvScore = (if 1 < cvScore then 1 else cvScore)
               in Inr (Some cvScore))))"

text \<open>The scan for the largest and second largest count, over the dictionary's values.\<close>

fun largest_scan :: "int \<Rightarrow> int \<Rightarrow> int list \<Rightarrow> int \<times> int" where
  "largest_scan largest secondLargest [] = (largest, secondLargest)"
| "largest_scan largest secondLargest (val # rest) =
     (if largest < val then largest_scan val largest rest
      else if secondLargest < val then largest_scan largest val rest
      else largest_scan largest secondLargest rest)"

definition calculateBimodalFitScore :: "config \<Rightarrow> (int \<times> int) list \<Rightarrow> int \<Rightarrow> real" where
  "calculateBimodalFitScore cfg freqCount totalBars =
     (let bimodalFit =
            (if bimodalMinHours cfg \<le> totalBars
             then (let (largest, secondLargest) = largest_scan 0 0 (map snd freqCount)
                   in real_of_int (largest + secondLargest) /
                      real_of_int (max (totalBars - bimodalOutlierRemoval cfg) 1))
             else 0);
          bimodalFitScore = np_ceil (bimodalFit * 1000) / 1000
      in if 1 < bimodalFitScore then 1 else bimodalFitScore)"

text \<open>Python's \<^verbatim>\<open>max(a, b)\<close> keeps \<open>a\<close> unless \<open>b > a\<close>; with \<open>a\<close> \<^verbatim>\<open>nan\<close> it returns \<open>a\<close>.\<close>

definition py_max :: "npfloat \<Rightarrow> npfloat \<Rightarrow> npfloat" where
  "py_max a b = (if np_gt b a then b else a)"

definition getTsHistogramScore ::
  "config \<Rightarrow> real \<Rightarrow> real \<Rightarrow> real list \<Rightarrow>
     error + (real list \<times> int list \<times> (int \<times> int) list \<times> int \<times> int \<times> npfloat)" where
  "getTsHistogramScore cfg start end sortedData =
     (case createBuckets start end 24 of
        Inl e \<Rightarrow> Inl e
      | Inr bucketDivs \<Rightarrow>
          (case createHistogram cfg bucketDivs sortedData of
             Inl e \<Rightarrow> Inl e
           | Inr (freqList, freqCount, totalBars, longestRun) \<Rightarrow>
               (case calculateCoefficientOfVariationScore freqList of
                  Inl e \<Rightarrow> Inl e
                | Inr cvScore \<Rightarrow>
                    (let bimodalFitScore = calculateBimodalFitScore cfg freqCount totalBars
                     in Inr (bucketDivs, freqList, freqCount, totalBars, longestRun,
                             py_max cvScore (Some bimodalFitScore))))))"

section \<open>The whole analysis\<close>

text \<open>
  \<^verbatim>\<open>analyze\<close>, up to the composite score (the printing and the plot that follow are left
  out). The timestamps are floats and the byte counts integers; \<^verbatim>\<open>exit(0)\<close> on an empty
  series is the value \<open>NoConnectionPair\<close>. The duration scorer receives the first and the last
  element of the timestamps as they were passed in, truncated. The composite is
  \<open>analyze_score\<close> of the four sub-scores, \<^verbatim>\<open>nan\<close> if one of them is.
\<close>

definition analyze ::
  "config \<Rightarrow> real list \<Rightarrow> int list \<Rightarrow> real \<Rightarrow> real \<Rightarrow> real \<Rightarrow> error + npfloat" where
  "analyze cfg tsData dsData minTsStartOfHour minTs maxTs =
     (if length tsData = 0 \<or> length dsData = 0 then Inl NoConnectionPair
      else
        (let start = minTs;
             end = maxTs;
             tsLength = int (length tsData) - 1;
             sortedTsData = sort tsData;
             sortedDsData = sort dsData
         in case calculateDistinctCounts (map real_of_int dsData) of
              Inl e \<Rightarrow> Inl e
            | Inr (dsSizes, dsCounts, dsMode, dsModeCount) \<Rightarrow>
         (case getTsScore sortedTsData tsLength of
              Inl e \<Rightarrow> Inl e
            | Inr (tsScore, tsSkew, tsMadm) \<Rightarrow>
         (case getDsScore (map real_of_int sortedDsData) dsMode of
              Inl e \<Rightarrow> Inl e
            | Inr (dsScore, dsSkew, dsMadm) \<Rightarrow>
         (case getTsHistogramScore cfg start end sortedTsData of
              Inl e \<Rightarrow> Inl e
            | Inr (bucketDivs, freqList, freqCount, totalBars, longestRun, histScore) \<Rightarrow>
         (case getDurationScore cfg start end
                 (real_of_int (py_int (tsData ! 0)))
                 (real_of_int (py_int (tsData ! (length tsData - 1))))
                 totalBars longestRun of
              Inl e \<Rightarrow> Inl e
            | Inr (coverage, consistency, durScore) \<Rightarrow>
                Inr (case (tsScore, dsScore, histScore) of
                       (Some t, Some d, Some h) \<Rightarrow> Some (analyze_score t d durScore h)
                     | _ \<Rightarrow> None)))))))"

section \<open>The two greatest counts as the specification words them\<close>

text \<open>
  Following the wording of the specification: the two greatest values among the counts,
  read off the counts in descending order, with 0 standing in for a missing one.
\<close>

definition spec_two_greatest :: "int list \<Rightarrow> int \<times> int" where
  "spec_two_greatest vals =
     (case rev (sort vals) of [] \<Rightarrow> (0, 0) | [a] \<Rightarrow> (a, 0) | a # b # _ \<Rightarrow> (a, b))"

text \<open>
  The invariant of the scan for the two largest counts: \<open>a\<close> and \<open>b\<close> are two of the
  values seen so far, \<open>b \<le> a\<close>, and every other value seen is at most \<open>b\<close>.
\<close>

definition top2 :: "int list \<Rightarrow> int \<Rightarrow> int \<Rightarrow> bool" where
  "top2 S a b \<longleftrightarrow>
     b \<le> a \<and> {#a, b#} \<subseteq># mset S \<and> (\<forall>r\<in>#(mset S - {#a, b#}). r \<le> b)"

section \<open>The longest circular run as the specification words it\<close>

text \<open>
  Following the wording of the specification: a circular run of length \<open>k\<close> starting at
  bucket \<open>i\<close> consists of the buckets \<open>i, i + 1, \<dots>\<close> read modulo the number of buckets, all
  with a positive frequency; the longest circular run is the greatest such length that does
  not exceed the number of buckets (0 when no bucket is active).
\<close>

definition spec_circular_run :: "int list \<Rightarrow> nat \<Rightarrow> nat \<Rightarrow> bool" where
  "spec_circular_run fs i k \<longleftrightarrow> (\<forall>j\<in>{0 ..< k}. 0 < fs ! ((i + j) mod length fs))"

definition spec_longest_circular_run :: "int list \<Rightarrow> nat" where
  "spec_longest_circular_run fs =
     Max (insert 0 {k \<in> {0 .. length fs}. \<exists>i\<in>{0 ..< length fs}. spec_circular_run fs i k})"

text \<open>
  Two auxiliaries for the proof: the run counters of the second loop of
  \<open>getFrequencyCounts\<close> on their own, as a scan over the frequencies read, and a run of
  positive entries at position \<open>i\<close> of a list.
\<close>

fun run_scan :: "int \<Rightarrow> int \<Rightarrow> int list \<Rightarrow> int \<times> int" where
  "run_scan longestRun currentRun [] = (longestRun, currentRun)"
| "run_scan longestRun currentRun (item # rest) =
     (if 0 < item then run_scan longestRun (currentRun + 1) rest
      else run_scan (if longestRun < currentRun then currentRun else longestRun) 0 rest)"

definition linear_run :: "int list \<Rightarrow> nat \<Rightarrow> nat \<Rightarrow> bool" where
  "linear_run xs i k \<longleftrightarrow> i + k \<le> length xs \<and> (\<forall>j<k. 0 < xs ! (i + j))"

section \<open>Properties\<close>






text \<open>
  Claim C5. With both thresholds at least 1, \<open>dmax > dmin\<close> and \<open>histMax > histMin\<close>, the
  duration scorer returns three zeros when fewer than \<open>durMinHours\<close> buckets are active, and
  otherwise the coverage and consistency ratios rounded up to three decimals and capped at 1,
  with their maximum as the score; a violated precondition ends the run with an error. With
  the module thresholds (\<open>durMinHours = 6\<close>) the input \<open>dmin = 0\<close>, \<open>dmax = 86400\<close>,
  \<open>histMin = 0\<close>, \<open>histMax = 43200\<close>, 12 active buckets and longest run 12 gives coverage
  0.5, consistency 1 and score 1.
\<close>

theorem getDurationScore_spec:
  "(1 \<le> durMinHours cfg \<and> 1 \<le> consistencyIdealHours cfg \<and> dmin < dmax \<and> histMin < histMax
      \<longrightarrow> getDurationScore cfg dmin dmax histMin histMax totalBars longestRun =
            Inr (if totalBars < durMinHours cfg then (0, 0, 0)
                 else (let coverage = min (of_int \<lceil>((histMax - histMin) / (dmax - dmin)) * 1000\<rceil> / 1000) 1;
                           consistency = min (of_int \<lceil>(real_of_int longestRun / real_of_int (consistencyIdealHours cfg)) * 1000\<rceil> / 1000) 1
                       in (coverage, consistency, max coverage consistency))))
   \<and> (\<not> (1 \<le> durMinHours cfg \<and> 1 \<le> consistencyIdealHours cfg \<and> dmin < dmax \<and> histMin < histMax)
      \<longrightarrow> isl (getDurationScore cfg dmin dmax histMin histMax totalBars longestRun))
   \<and> durMinHours default_config = 6
   \<and> getDurationScore default_config 0 86400 0 43200 12 12 = Inr (1 / 2, 1, 1)"
  by (auto simp: getDurationScore_def np_ceil_def Let_def min_def default_config_def)

theorem getDurationScore_spec_witness:
  "getDurationScore default_config 0 86400 1000 44200 7 3 = Inr (1 / 2, 1 / 4, 1 / 2)
   \<and> getDurationScore default_config 0 86400 1000 44200 5 3 = Inr (0, 0, 0)
   \<and> isl (getDurationScore default_config 86400 86400 1000 44200 7 3)"
  using getDurationScore_spec [of default_config 0 86400 1000 44200 7 3]
        getDurationScore_spec [of default_config 0 86400 1000 44200 5 3]
        getDurationScore_spec [of default_config 86400 86400 1000 44200 7 3]
  by (simp add: default_config_def Let_def)

subsection \<open>Quartile skewness\<close>


lemma np_median_sorted: "sorted xs \<Longrightarrow> np_median xs = spec_median xs"
proof -
  assume "sorted xs"
  then have s: "sort xs = xs" by (rule sorted_sort_id)
  have p: "(length xs mod 2 = 1) = odd (length xs)" by presburger
  show ?thesis unfolding np_median_def spec_median_def Let_def s p by (simp only: )
qed

lemma np_median_sort: "np_median (sort xs) = np_median xs"
  by (simp add: np_median_def sorted_sort_id)

lemma spec_median_eq_None: "spec_median xs = None \<longleftrightarrow> xs = []"
  unfolding spec_median_def Let_def by (cases "xs = []"; cases "odd (length xs)"; simp)

lemma cutoff_lower: "xs \<noteq> [] \<Longrightarrow>
  take (if length xs mod 2 = 0 then length xs div 2 else (length xs - 1) div 2) xs = spec_lower_half xs"
  by (simp add: spec_lower_half_def Let_def even_iff_mod_2_eq_zero)

lemma cutoff_upper: "xs \<noteq> [] \<Longrightarrow>
  drop (if length xs mod 2 = 0 then length xs div 2
        else (if length xs mod 2 = 0 then length xs div 2 else (length xs - 1) div 2) + 1) xs
   = spec_upper_half xs"
proof -
  have "even (length xs) \<Longrightarrow> length xs - length xs div 2 = length xs div 2" by presburger
  then show ?thesis
    by (auto simp: spec_upper_half_def Let_def even_iff_mod_2_eq_zero)
qed

lemma sorted_lower_half: "sorted xs \<Longrightarrow> sorted (spec_lower_half xs)"
  by (simp add: spec_lower_half_def Let_def sorted_wrt_take)

lemma sorted_upper_half: "sorted xs \<Longrightarrow> sorted (spec_upper_half xs)"
  by (simp add: spec_upper_half_def Let_def sorted_wrt_drop)

lemma bowley_on_sorted:
  assumes "sorted data" "data \<noteq> []"
  shows "calculateBowleySkewness data =
           Inr (Some (spec_skewness data), Some (1 - \<bar>spec_skewness data\<bar>))"
proof -
  have q1: "np_median (sort (spec_lower_half data)) = spec_median (spec_lower_half data)"
    using assms by (simp add: np_median_sort np_median_sorted sorted_lower_half)
  have q2: "np_median (sort data) = spec_median data"
    using assms by (simp add: np_median_sort np_median_sorted)
  have q3: "np_median (sort (spec_upper_half data)) = spec_median (spec_upper_half data)"
    using assms by (simp add: np_median_sort np_median_sorted sorted_upper_half)
  have "calculateBowleySkewness data =
        (let q1 = spec_median (spec_lower_half data); q2 = spec_median data;
             q3 = spec_median (spec_upper_half data);
             num = np_sub (np_add q1 q3) (np_mul (Some 2) q2);
             den = np_sub q3 q1;
             skewness = (if np_ge den (Some 10) \<and> np_ne q2 q1 \<and> np_ne q2 q3
                         then np_div num den else Some 0)
         in Inr (skewness, np_sub (Some 1) (np_abs skewness)))"
    using assms(2) unfolding calculateBowleySkewness_def Let_def
    by (simp only: cutoff_lower [OF assms(2)] cutoff_upper [OF assms(2)] q1 q2 q3
          length_0_conv if_False)
  then have eq: "calculateBowleySkewness data =
        (let q1 = spec_median (spec_lower_half data); q2 = spec_median data;
             q3 = spec_median (spec_upper_half data);
             num = np_sub (np_add q1 q3) (np_mul (Some 2) q2);
             den = np_sub q3 q1;
             skewness = (if np_ge den (Some 10) \<and> np_ne q2 q1 \<and> np_ne q2 q3
                         then np_div num den else Some 0)
         in Inr (skewness, np_sub (Some 1) (np_abs skewness)))" .
  obtain q2 where m2: "spec_median data = Some q2"
    using assms(2) by (cases "spec_median data") (auto simp: spec_median_eq_None)
  show ?thesis
  proof (cases "spec_median (spec_lower_half data)")
    case None
    then show ?thesis unfolding eq spec_skewness_def m2
      by (simp add: Let_def np_sub_def np_add_def np_ge_def np_abs_def split: option.splits)
  next
    case q1: (Some q1)
    show ?thesis
    proof (cases "spec_median (spec_upper_half data)")
      case None
      then show ?thesis unfolding eq spec_skewness_def m2 q1
        by (simp add: Let_def np_sub_def np_add_def np_ge_def np_abs_def)
    next
      case (Some q3)
      then show ?thesis unfolding eq spec_skewness_def m2 q1
        by (simp add: Let_def np_sub_def np_add_def np_mul_def np_ge_def
          np_ne_def np_div_def np_abs_def)
    qed
  qed
qed

lemma spec_median_bounds:
  assumes "sorted ys" "ys \<noteq> []"
  shows "\<exists>m. spec_median ys = Some m \<and> ys ! 0 \<le> m \<and> m \<le> ys ! (length ys - 1)"
proof (cases "odd (length ys)")
  case True
  have "ys ! 0 \<le> ys ! (length ys div 2)"
    using assms by (intro sorted_nth_mono) auto
  moreover have "ys ! (length ys div 2) \<le> ys ! (length ys - 1)"
    using assms by (intro sorted_nth_mono) auto
  ultimately show ?thesis
    using True assms(2) by (simp add: spec_median_def Let_def)
next
  case False
  then have pos: "0 < length ys div 2" using assms(2) by (cases ys) auto
  have a: "ys ! 0 \<le> ys ! (length ys div 2 - 1)"
    using assms pos by (intro sorted_nth_mono) auto
  have b: "ys ! (length ys div 2 - 1) \<le> ys ! (length ys div 2)"
    using assms pos by (intro sorted_nth_mono) auto
  have c: "ys ! (length ys div 2) \<le> ys ! (length ys - 1)"
    using assms pos by (intro sorted_nth_mono) auto
  let ?m = "(ys ! (length ys div 2 - 1) + ys ! (length ys div 2)) / 2"
  have m: "spec_median ys = Some ?m"
    using False assms(2) by (simp add: spec_median_def Let_def)
  have "ys ! 0 \<le> ?m" using a b by simp
  moreover have "?m \<le> ys ! (length ys - 1)" using b c by simp
  ultimately show ?thesis using m by blast
qed

lemma lower_half_eq: "spec_lower_half xs = take (length xs div 2) xs"
proof -
  have "odd (length xs) \<Longrightarrow> (length xs - 1) div 2 = length xs div 2" by presburger
  then show ?thesis by (auto simp: spec_lower_half_def Let_def)
qed

lemma upper_half_eq: "spec_upper_half xs = drop (length xs - length xs div 2) xs"
proof -
  have "odd (length xs) \<Longrightarrow> (length xs - 1) div 2 + 1 = length xs - length xs div 2"
    by presburger
  then show ?thesis by (auto simp: spec_upper_half_def Let_def)
qed

lemma quartiles_ordered:
  assumes "sorted xs" "2 \<le> length xs"
  shows "\<exists>q1 q2 q3. spec_median (spec_lower_half xs) = Some q1 \<and> spec_median xs = Some q2 \<and>
            spec_median (spec_upper_half xs) = Some q3 \<and> q1 \<le> q2 \<and> q2 \<le> q3"
proof -
  let ?n = "length xs" 
  let ?h = "length xs div 2"
  have h: "1 \<le> ?h" "?h \<le> ?n" "?n - ?h < ?n" "?h - 1 \<le> ?n - ?h" using assms(2) by auto
  have ne: "xs \<noteq> []" using assms(2) by auto
  have lne: "spec_lower_half xs \<noteq> []" using h ne by (simp add: lower_half_eq)
  have une: "spec_upper_half xs \<noteq> []" using h ne by (simp add: upper_half_eq)
  obtain q1 where q1: "spec_median (spec_lower_half xs) = Some q1"
      "q1 \<le> spec_lower_half xs ! (length (spec_lower_half xs) - 1)"
    using spec_median_bounds [OF sorted_lower_half [OF assms(1)] lne] by blast
  obtain q3 where q3: "spec_median (spec_upper_half xs) = Some q3"
      "spec_upper_half xs ! 0 \<le> q3"
    using spec_median_bounds [OF sorted_upper_half [OF assms(1)] une] by blast
  have l: "spec_lower_half xs ! (length (spec_lower_half xs) - 1) = xs ! (?h - 1)"
    using h by (simp add: lower_half_eq min_def)
  have u: "spec_upper_half xs ! 0 = xs ! (?n - ?h)"
    using h by (simp add: upper_half_eq)
  have a: "xs ! (?h - 1) \<le> xs ! ?h"
    using assms h by (intro sorted_nth_mono) auto
  have hh: "?h \<le> ?n - ?h" by arith
  have b: "xs ! ?h \<le> xs ! (?n - ?h)"
    using assms(1) hh h(3) by (rule sorted_nth_mono)
  have c: "xs ! (?h - 1) \<le> xs ! (?n - ?h)" using a b by simp
  have ev: "even ?n \<Longrightarrow> ?n - ?h = ?h" by presburger
  obtain q2 where q2: "spec_median xs = Some q2" "xs ! (?h - 1) \<le> q2" "q2 \<le> xs ! (?n - ?h)"
  proof (cases "odd ?n")
    case True
    then have "spec_median xs = Some (xs ! ?h)" using ne by (simp add: spec_median_def Let_def)
    then show ?thesis using a b that by blast
  next
    case False
    then have "spec_median xs = Some ((xs ! (?h - 1) + xs ! ?h) / 2)"
      using ne by (simp add: spec_median_def Let_def)
    moreover have "xs ! (?h - 1) \<le> (xs ! (?h - 1) + xs ! ?h) / 2" using a by simp
    moreover have "(xs ! (?h - 1) + xs ! ?h) / 2 \<le> xs ! (?n - ?h)"
      using a ev [OF False [simplified]] by simp
    ultimately show ?thesis using that by blast
  qed
  show ?thesis using q1 q2 q3 l u by auto
qed

lemma spec_skewness_bounded:
  assumes "sorted xs" "2 \<le> length xs"
  shows "\<bar>spec_skewness xs\<bar> \<le> 1"
proof -
  obtain q1 q2 q3 where q: "spec_median (spec_lower_half xs) = Some q1" "spec_median xs = Some q2"
      "spec_median (spec_upper_half xs) = Some q3" "q1 \<le> q2" "q2 \<le> q3"
    using quartiles_ordered [OF assms] by blast
  show ?thesis
  proof (cases "10 \<le> q3 - q1 \<and> q2 \<noteq> q1 \<and> q2 \<noteq> q3")
    case True
    then have pos: "0 < q3 - q1" by simp
    have "\<bar>q1 + q3 - 2 * q2\<bar> \<le> q3 - q1" using q(4,5) by (simp add: abs_le_iff)
    then have "\<bar>(q1 + q3 - 2 * q2) / (q3 - q1)\<bar> \<le> 1" using pos by (simp add: abs_le_iff)
    then show ?thesis using True q by (simp add: spec_skewness_def)
  next
    case False
    then show ?thesis using q by (auto simp: spec_skewness_def)
  qed
qed


lemma halves_split:
  "(even (length xs) \<longrightarrow> spec_lower_half xs @ spec_upper_half xs = xs
       \<and> length (spec_lower_half xs) = length xs div 2
       \<and> length (spec_upper_half xs) = length xs div 2)
   \<and> (odd (length xs) \<longrightarrow>
         spec_lower_half xs @ [xs ! ((length xs - 1) div 2)] @ spec_upper_half xs = xs
       \<and> length (spec_lower_half xs) = (length xs - 1) div 2
       \<and> length (spec_upper_half xs) = (length xs - 1) div 2)"
proof (cases "even (length xs)")
  case True
  then have e: "length xs - length xs div 2 = length xs div 2" by presburger
  show ?thesis using True by (simp add: spec_lower_half_def spec_upper_half_def Let_def e)
next
  case False
  let ?k = "(length xs - 1) div 2"
  have k: "?k < length xs" "length xs - (?k + 1) = ?k" using False by presburger+
  have "take ?k xs @ [xs ! ?k] @ drop (?k + 1) xs = xs"
    using k(1) by (simp add: Cons_nth_drop_Suc)
  then show ?thesis using False k
    by (simp add: spec_lower_half_def spec_upper_half_def Let_def min_def)
qed

text \<open>
  Claim C2. On an ascending non-empty sequence the skewness scorer takes the medians of the
  lower half, of the whole sequence and of the upper half (for even length the halves are the
  first and the last \<open>n div 2\<close> elements, for odd length the middle element belongs to
  neither), returns \<open>(q1 + q3 - 2 q2) / (q3 - q1)\<close> exactly when \<open>q3 - q1 \<ge> 10\<close>,
  \<open>q2 \<noteq> q1\<close> and \<open>q2 \<noteq> q3\<close>, and 0 otherwise (also when a half is empty and
  has no median); the score is \<open>1 - |skewness|\<close>, with no clamping.
\<close>

theorem calculateBowleySkewness_quartiles:
  assumes "sorted data" and "data \<noteq> []"
  shows "calculateBowleySkewness data =
           Inr (Some (spec_skewness data), Some (1 - \<bar>spec_skewness data\<bar>))
     \<and> (even (length data) \<longrightarrow> spec_lower_half data @ spec_upper_half data = data
           \<and> length (spec_lower_half data) = length data div 2
           \<and> length (spec_upper_half data) = length data div 2)
     \<and> (odd (length data) \<longrightarrow>
           spec_lower_half data @ [data ! ((length data - 1) div 2)] @ spec_upper_half data = data
           \<and> length (spec_lower_half data) = (length data - 1) div 2
           \<and> length (spec_upper_half data) = (length data - 1) div 2)"
  using bowley_on_sorted [OF assms] halves_split [of data] by simp

theorem calculateBowleySkewness_quartiles_witness:
  "calculateBowleySkewness [0, 0, 20, 21] = Inr (Some (1 / 41), Some (40 / 41))
   \<and> calculateBowleySkewness [1, 2, 3, 4, 5, 6, 7, 8, 9, 10, 11] = Inr (Some 0, Some 1)
   \<and> calculateBowleySkewness [0, 0, 0, 10, 10, 30, 40] = Inr (Some (1 / 3), Some (2 / 3))
   \<and> calculateBowleySkewness [7] = Inr (Some 0, Some 1)"
  using calculateBowleySkewness_quartiles [of "[0, 0, 20, 21]"]
        calculateBowleySkewness_quartiles [of "[1, 2, 3, 4, 5, 6, 7, 8, 9, 10, 11]"]
        calculateBowleySkewness_quartiles [of "[0, 0, 0, 10, 10, 30, 40]"]
        calculateBowleySkewness_quartiles [of "[7]"]
  by (simp add: spec_skewness_def spec_median_def spec_lower_half_def spec_upper_half_def Let_def)

text \<open>
  Claim C10. On an ascending sequence of at least two values the three quartiles taken by
  the skewness scorer are ordered, \<open>q1 \<le> q2 \<le> q3\<close>; so the skewness has magnitude at
  most 1 and the score \<open>1 - |skewness|\<close> lies between 0 and 1.
\<close>

theorem bowley_score_unit_interval:
  assumes "sorted data" and "2 \<le> length data"
  shows "\<exists>q1 q2 q3 sk.
           np_median (sort (take (length data div 2) data)) = Some q1
         \<and> np_median (sort data) = Some q2
         \<and> np_median (sort (drop (length data - length data div 2) data)) = Some q3
         \<and> q1 \<le> q2 \<and> q2 \<le> q3
         \<and> calculateBowleySkewness data = Inr (Some sk, Some (1 - \<bar>sk\<bar>))
         \<and> \<bar>sk\<bar> \<le> 1 \<and> 0 \<le> 1 - \<bar>sk\<bar> \<and> 1 - \<bar>sk\<bar> \<le> 1"
proof -
  have ne: "data \<noteq> []" using assms(2) by auto
  obtain q1 q2 q3 where q: "spec_median (spec_lower_half data) = Some q1"
      "spec_median data = Some q2" "spec_median (spec_upper_half data) = Some q3"
      "q1 \<le> q2" "q2 \<le> q3"
    using quartiles_ordered [OF assms] by blast
  have m1: "np_median (sort (take (length data div 2) data)) = Some q1"
    using q(1) sorted_lower_half [OF assms(1)]
    by (simp add: np_median_sort np_median_sorted lower_half_eq)
  have m2: "np_median (sort data) = Some q2"
    using q(2) assms(1) by (simp add: np_median_sort np_median_sorted)
  have m3: "np_median (sort (drop (length data - length data div 2) data)) = Some q3"
    using q(3) sorted_upper_half [OF assms(1)]
    by (simp add: np_median_sort np_median_sorted upper_half_eq)
  have b: "\<bar>spec_skewness data\<bar> \<le> 1" by (rule spec_skewness_bounded [OF assms])
  show ?thesis
    using m1 m2 m3 q(4,5) bowley_on_sorted [OF assms(1) ne] b by auto
qed

theorem bowley_score_unit_interval_witness:
  "\<exists>q1 q2 q3 sk.
           np_median (sort (take 2 [0, 0, 20, 21])) = Some q1
         \<and> np_median (sort [0, 0, 20, 21]) = Some q2
         \<and> np_median (sort (drop 2 [0, 0, 20, 21])) = Some q3
         \<and> q1 \<le> q2 \<and> q2 \<le> q3
         \<and> calculateBowleySkewness [0, 0, 20, 21] = Inr (Some sk, Some (1 - \<bar>sk\<bar>))
         \<and> \<bar>sk\<bar> \<le> 1 \<and> 0 \<le> 1 - \<bar>sk\<bar> \<and> 1 - \<bar>sk\<bar> \<le> 1"
  using bowley_score_unit_interval [of "[0, 0, 20, 21]"] by simp


subsection \<open>Median absolute deviation\<close>


lemma np_median_Some: "xs \<noteq> [] \<Longrightarrow> \<exists>m. np_median xs = Some m"
proof -
  assume ne: "xs \<noteq> []"
  have "np_median xs = spec_median (sort xs)"
    using np_median_sorted [of "sort xs"] by (simp add: np_median_sort)
  moreover have "sort xs \<noteq> []"
    using ne length_sort [of "\<lambda>x. x" xs] by (metis length_0_conv)
  then have "spec_median (sort xs) \<noteq> None"
    by (simp add: spec_median_eq_None)
  ultimately show ?thesis by auto
qed

lemma np_median_mset: "mset xs = mset ys \<Longrightarrow> np_median xs = np_median ys"
proof -
  assume "mset xs = mset ys"
  then have "sort xs = sort ys"
    by (intro properties_for_sort) simp_all
  then show ?thesis by (simp add: np_median_def)
qed

lemma np_median_deviations:
  "np_median (map f (sort data)) = np_median (map f data)"
  by (rule np_median_mset) simp

lemma madm_value:
  assumes "data \<noteq> []"
  shows "\<exists>m mad. np_median data = Some m
            \<and> np_median (map (\<lambda>x. \<bar>x - m\<bar>) data) = Some mad
            \<and> calculateMedianAbsoluteDeviation data defaultScore =
                Inr (Some mad,
                     let score = (if 1 \<le> m then (m - mad) / m else defaultScore)
                     in if score < 0 then 0 else score)"
proof -
  obtain m where m: "np_median data = Some m"
    using np_median_Some [OF assms] by blast
  have "map (\<lambda>x. \<bar>x - m\<bar>) data \<noteq> []" using assms by simp
  then obtain mad where mad: "np_median (map (\<lambda>x. \<bar>x - m\<bar>) data) = Some mad"
    using np_median_Some by blast
  have ms: "np_median (sort data) = Some m" using m by (simp add: np_median_sort)
  have r: "calculateMedianAbsoluteDeviation data defaultScore =
        Inr (Some mad,
             let score = (if 1 \<le> m then (m - mad) / m else defaultScore)
             in if score < 0 then 0 else score)"
    using assms
    by (simp add: calculateMedianAbsoluteDeviation_def ms np_median_deviations mad Let_def
          np_div_def np_sub_def np_lt_def isnan_def)
  show ?thesis using m mad r by blast
qed

lemma madm_nonempty_Inr:
  "data \<noteq> [] \<Longrightarrow> \<exists>mad sc. calculateMedianAbsoluteDeviation data d = Inr (mad, sc)"
  using madm_value [of data d] by blast

text \<open>
  Claim C3. On a non-empty sequence the MADM scorer takes the median \<open>m\<close> of the data and
  \<open>mad\<close>, the median of the absolute deviations \<open>|x - m|\<close>; the score is
  \<open>(m - mad) / m\<close> when \<open>m \<ge> 1\<close> and the caller's default score otherwise, and a
  negative score is replaced by 0 (a \<^verbatim>\<open>nan\<close> score would be too, but none arises on
  numbers). On \<open>[1, 1, 1, 1]\<close> the median is 1, the deviation 0 and the score 1.
\<close>

theorem calculateMedianAbsoluteDeviation_score:
  assumes "data \<noteq> []"
  shows "(\<exists>m mad. np_median data = Some m
            \<and> np_median (map (\<lambda>x. \<bar>x - m\<bar>) data) = Some mad
            \<and> calculateMedianAbsoluteDeviation data defaultScore =
                Inr (Some mad,
                     let score = (if 1 \<le> m then (m - mad) / m else defaultScore)
                     in if score < 0 then 0 else score))
       \<and> np_median [1, 1, 1, 1] = Some 1
       \<and> calculateMedianAbsoluteDeviation [1, 1, 1, 1] defaultScore = Inr (Some 0, 1)"
proof -
  have ex: "np_median [1, 1, 1, 1] = Some 1
       \<and> calculateMedianAbsoluteDeviation [1, 1, 1, 1] defaultScore = Inr (Some 0, 1)"
    by (simp add: calculateMedianAbsoluteDeviation_def np_median_def Let_def
          np_div_def np_sub_def np_lt_def isnan_def)
  show ?thesis using madm_value [OF assms, of defaultScore] ex by blast
qed

theorem calculateMedianAbsoluteDeviation_score_witness:
  "calculateMedianAbsoluteDeviation [2, 4, 4, 10, 30] 1 = Inr (Some 2, 1 / 2)
   \<and> calculateMedianAbsoluteDeviation [0, 0, 0, 7] (-3) = Inr (Some 0, 0)
   \<and> calculateMedianAbsoluteDeviation [0, 0, 0, 7] (1 / 4) = Inr (Some 0, 1 / 4)
   \<and> calculateMedianAbsoluteDeviation [-100, 1, 100] 1 = Inr (Some 99, 0)"
  using calculateMedianAbsoluteDeviation_score [of "[2, 4, 4, 10, 30]" 1]
        calculateMedianAbsoluteDeviation_score [of "[0, 0, 0, 7]" "-3"]
        calculateMedianAbsoluteDeviation_score [of "[0, 0, 0, 7]" "1 / 4"]
        calculateMedianAbsoluteDeviation_score [of "[-100, 1, 100]" 1]
  by (simp add: np_median_def Let_def)


subsection \<open>Inputs below the minimum length\<close>


lemma bowley_nonempty_Inr:
  "data \<noteq> [] \<Longrightarrow> \<exists>sk sc. calculateBowleySkewness data = Inr (sk, sc)"
  by (simp add: calculateBowleySkewness_def Let_def)

lemma dom_count_incr: "dom (count_incr m k) = insert k (dom m)"
  by (auto simp: count_incr_def split: option.splits)

lemma distinct_scan_inv:
  "distinct_scan l dn cm rest = (dn', cm') \<Longrightarrow> set dn \<subseteq> dom cm \<Longrightarrow> dn \<noteq> []
     \<Longrightarrow> set dn' \<subseteq> dom cm' \<and> dn' \<noteq> []"
proof (induction rest arbitrary: l dn cm)
  case Nil
  then show ?case by simp
next
  case (Cons c rest)
  show ?case
  proof (rule Cons.IH)
    show "distinct_scan c (if l \<noteq> c then dn @ [c] else dn) (count_incr cm c) rest = (dn', cm')"
      using Cons.prems(1) by simp
    show "set (if l \<noteq> c then dn @ [c] else dn) \<subseteq> dom (count_incr cm c)"
      using Cons.prems(2) by (auto simp: dom_count_incr)
    show "(if l \<noteq> c then dn @ [c] else dn) \<noteq> []"
      using Cons.prems(3) by simp
  qed
qed

lemma mode_scan_Inr:
  "set ns \<subseteq> dom cm \<Longrightarrow> \<exists>r. mode_scan cm ns ca mode mx = Inr r"
proof (induction ns arbitrary: ca mode mx)
  case Nil
  then show ?case by simp
next
  case (Cons n ns)
  then obtain c where c: "cm n = Some c" by auto
  have "set ns \<subseteq> dom cm" using Cons.prems by simp
  then show ?case using c Cons.IH by simp
qed

lemma calculateDistinctCounts_Inr:
  assumes "2 \<le> length xs"
  shows "\<exists>r. calculateDistinctCounts xs = Inr r"
proof -
  have "length (sort xs) = length xs" by simp
  then obtain l rest where s: "sort xs = l # rest"
    using assms by (cases "sort xs") auto
  obtain dn cm where d: "distinct_scan l [l] (count_incr Map.empty l) rest = (dn, cm)"
    by (cases "distinct_scan l [l] (count_incr Map.empty l) rest") auto
  have inv: "set dn \<subseteq> dom cm \<and> dn \<noteq> []"
    by (rule distinct_scan_inv [OF d]) (simp_all add: dom_count_incr)
  then obtain mode tl where dn: "dn = mode # tl" by (cases dn) auto
  then obtain mx where mx: "cm mode = Some mx" using inv by auto
  obtain r where r: "mode_scan cm dn [] mode mx = Inr r"
    using mode_scan_Inr inv by blast
  obtain ca m' mx' where r': "r = (ca, m', mx')" by (cases r) auto
  have "calculateDistinctCounts xs = Inr (dn, ca, m', mx')"
    using assms
    by (simp add: calculateDistinctCounts_def s d dn mx r [unfolded dn r']
          del: mode_scan.simps)
  then show ?thesis by blast
qed

text \<open>
  Claim C7, corrected. The distinct-value counter fails on fewer than two values and
  succeeds on two or more; the skewness scorer and the MADM scorer fail on the empty sequence
  only. On a single value the skewness scorer does not fail: both halves are empty, their
  medians are \<^verbatim>\<open>nan\<close>, the spread test is false, and it returns skewness 0 and score 1
  (the first theorem is that counterexample to failing below two values).
\<close>

theorem bowley_single_value_counterexample:
  "length [5 :: real] < 2 \<and> calculateBowleySkewness [5] = Inr (Some 0, Some 1)"
  by (simp add: calculateBowleySkewness_def np_median_def np_sub_def np_add_def np_mul_def
        np_ge_def np_abs_def Let_def)

text \<open>
  Claim C7 as amended: where each of the three operations fails and where it does not.
\<close>

theorem sub_minimum_input_failures:
  "(length xs < 2 \<longrightarrow> calculateDistinctCounts xs = Inl NotEnoughItems)
   \<and> (2 \<le> length xs \<longrightarrow> \<not> isl (calculateDistinctCounts xs))
   \<and> calculateBowleySkewness [] = Inl QuartileInputEmpty
   \<and> calculateBowleySkewness [x] = Inr (Some 0, Some 1)
   \<and> (ys \<noteq> [] \<longrightarrow> \<not> isl (calculateBowleySkewness ys))
   \<and> calculateMedianAbsoluteDeviation [] d = Inl MadmInputEmpty
   \<and> (ys \<noteq> [] \<longrightarrow> \<not> isl (calculateMedianAbsoluteDeviation ys d))"
proof -
  have a: "length xs < 2 \<longrightarrow> calculateDistinctCounts xs = Inl NotEnoughItems"
    by (simp add: calculateDistinctCounts_def)
  have b: "2 \<le> length xs \<longrightarrow> \<not> isl (calculateDistinctCounts xs)"
    using calculateDistinctCounts_Inr [of xs] by auto
  have c: "calculateBowleySkewness [] = Inl QuartileInputEmpty"
    by (simp add: calculateBowleySkewness_def)
  have c': "calculateBowleySkewness [x] = Inr (Some 0, Some 1)"
    by (simp add: calculateBowleySkewness_def np_median_def np_sub_def np_add_def np_mul_def
        np_ge_def np_abs_def Let_def)
  have e: "ys \<noteq> [] \<longrightarrow> \<not> isl (calculateBowleySkewness ys)"
    using bowley_nonempty_Inr [of ys] by auto
  have f: "calculateMedianAbsoluteDeviation [] d = Inl MadmInputEmpty"
    by (simp add: calculateMedianAbsoluteDeviation_def)
  have g: "ys \<noteq> [] \<longrightarrow> \<not> isl (calculateMedianAbsoluteDeviation ys d)"
    using madm_nonempty_Inr [of ys d] by auto
  show ?thesis using a b c c' e f g by blast
qed

theorem sub_minimum_input_failures_witness:
  "calculateDistinctCounts [3] = Inl NotEnoughItems
   \<and> \<not> isl (calculateDistinctCounts [1, 1, 2, 3, 3, 3])
   \<and> \<not> isl (calculateBowleySkewness [4, 9])
   \<and> \<not> isl (calculateMedianAbsoluteDeviation [4, 9] 0)"
  using sub_minimum_input_failures [of "[3]" 0 "[4, 9]" 0]
        sub_minimum_input_failures [of "[1, 1, 2, 3, 3, 3]" 0 "[4, 9]" 0]
  by simp


subsection \<open>Timing score\<close>












subsection \<open>Histogram builder\<close>


lemma sum_list_update_int:
  "i < length xs \<Longrightarrow> sum_list (xs[i := v]) = sum_list xs - xs ! i + (v :: int)"
proof (induction xs arbitrary: i)
  case Nil
  then show ?case by simp
next
  case (Cons x xs)
  then show ?case by (cases i) auto
qed

lemma find_bucket_bound:
  "find_bucket bucketDivs entry j = Some k \<Longrightarrow> j \<le> k \<and> k < length bucketDivs - 1"
proof (induction bucketDivs entry j rule: find_bucket.induct)
  case (1 bucketDivs entry j)
  show ?case
  proof (cases "j < length bucketDivs - 1")
    case True
    show ?thesis
    proof (cases "entry < bucketDivs ! (j + 1)")
      case e: True
      then show ?thesis using "1.prems" True by simp
    next
      case e: False
      then have "find_bucket bucketDivs entry (j + 1) = Some k"
        using "1.prems" True by simp
      then have "j + 1 \<le> k \<and> k < length bucketDivs - 1"
        using "1.IH" True e by blast
      then show ?thesis by simp
    qed
  next
    case False
    then show ?thesis using "1.prems" by simp
  qed
qed

lemma find_bucket_None:
  "(\<forall>j. i < j \<and> j < length bucketDivs \<longrightarrow> bucketDivs ! j \<le> entry)
     \<Longrightarrow> find_bucket bucketDivs entry i = None"
proof (induction bucketDivs entry i rule: find_bucket.induct)
  case (1 bucketDivs entry j)
  show ?case
  proof (cases "j < length bucketDivs - 1")
    case True
    then have "bucketDivs ! (j + 1) \<le> entry" using "1.prems" by simp
    then have ne: "\<not> entry < bucketDivs ! (j + 1)" by simp
    have "find_bucket bucketDivs entry (j + 1) = None"
      using "1.IH" [OF True ne] "1.prems" by simp
    then show ?thesis using True ne by simp
  next
    case False
    then show ?thesis by simp
  qed
qed

lemma histogram_scan_sum:
  "i < length freqList \<Longrightarrow> length freqList = length bucketDivs - 1 \<Longrightarrow>
     sum_list (histogram_scan bucketDivs i bucket freqList entries)
       = sum_list freqList + int (length entries)
   \<and> length (histogram_scan bucketDivs i bucket freqList entries) = length freqList"
proof (induction entries arbitrary: i bucket freqList)
  case Nil
  then show ?case by simp
next
  case (Cons entry rest)
  let ?same = "freqList[i := freqList ! i + 1]"
  have same: "sum_list ?same = sum_list freqList + 1" "length ?same = length freqList"
    using Cons.prems(1) by (simp_all add: sum_list_update_int)
  have stay: "sum_list (histogram_scan bucketDivs i bucket ?same rest)
                = sum_list freqList + int (length (entry # rest))
              \<and> length (histogram_scan bucketDivs i bucket ?same rest) = length freqList"
    using Cons.IH [of i ?same bucket] Cons.prems same by simp
  show ?case
  proof (cases "entry < bucket")
    case True
    then show ?thesis using stay by simp
  next
    case False
    show ?thesis
    proof (cases "find_bucket bucketDivs entry (i + 1)")
      case None
      then show ?thesis using False stay by simp
    next
      case (Some j)
      then have j: "j < length freqList"
        using find_bucket_bound [OF Some] Cons.prems(2) by simp
      let ?moved = "freqList[j := freqList ! j + 1]"
      have moved: "sum_list ?moved = sum_list freqList + 1" "length ?moved = length freqList"
        using j by (simp_all add: sum_list_update_int)
      have "sum_list (histogram_scan bucketDivs j (bucketDivs ! (j + 1)) ?moved rest)
                = sum_list freqList + int (length (entry # rest))
              \<and> length (histogram_scan bucketDivs j (bucketDivs ! (j + 1)) ?moved rest)
                = length freqList"
        using Cons.IH [of j ?moved "bucketDivs ! (j + 1)"] Cons.prems(2) j moved by simp
      then show ?thesis using False Some by simp
    qed
  qed
qed

lemma createHistogram_sum:
  assumes "2 \<le> length bucketDivs"
  shows "\<exists>freqList freqCount totalBars longestRun.
           createHistogram cfg bucketDivs sortedData =
             Inr (freqList, freqCount, totalBars, longestRun)
         \<and> length freqList = length bucketDivs - 1
         \<and> sum_list freqList = int (length sortedData)"
proof -
  let ?init = "replicate (length bucketDivs - 1) (0 :: int)"
  let ?fl = "histogram_scan bucketDivs 0 (bucketDivs ! 1) ?init sortedData"
  have "sum_list ?fl = sum_list ?init + int (length sortedData) \<and> length ?fl = length ?init"
    using assms by (intro histogram_scan_sum) simp_all
  then have fl: "sum_list ?fl = int (length sortedData)" "length ?fl = length bucketDivs - 1"
    by (simp_all add: sum_list_replicate)
  obtain fc tb lr where g: "getFrequencyCounts cfg ?fl = (fc, tb, lr)"
    by (cases "getFrequencyCounts cfg ?fl") auto
  have "createHistogram cfg bucketDivs sortedData = Inr (?fl, fc, tb, lr)"
    using assms g by (simp add: createHistogram_def Let_def)
  then show ?thesis using fl by blast
qed

lemma histogram_scan_stays:
  assumes "entry < bucket \<or> (\<forall>j. i < j \<and> j < length bucketDivs \<longrightarrow> bucketDivs ! j \<le> entry)"
  shows "histogram_scan bucketDivs i bucket freqList (entry # rest) =
           histogram_scan bucketDivs i bucket (freqList[i := freqList ! i + 1]) rest"
proof (cases "entry < bucket")
  case True
  then show ?thesis by simp
next
  case False
  then have "\<forall>j. i < j \<and> j < length bucketDivs \<longrightarrow> bucketDivs ! j \<le> entry"
    using assms by blast
  then have "\<forall>j. i + 1 < j \<and> j < length bucketDivs \<longrightarrow> bucketDivs ! j \<le> entry" by simp
  then have "find_bucket bucketDivs entry (i + 1) = None" by (rule find_bucket_None)
  then show ?thesis using False by simp
qed


lemma ceiling_one_div_numeral: "\<lceil>1 / numeral n :: real\<rceil> = 1"
  by (simp add: ceiling_eq_iff)

text \<open>
  Claim C9. Given at least two dividers, the histogram builder increments exactly one
  bucket for each timestamp, so the frequencies sum to the number of timestamps. A timestamp
  below the cursor's upper divider, or at or above every later divider (so also one outside
  the range of the dividers), is counted in the bucket the cursor points at.
\<close>

theorem createHistogram_counts_every_timestamp:
  assumes "2 \<le> length bucketDivs"
  shows "(\<exists>freqList freqCount totalBars longestRun.
            createHistogram cfg bucketDivs sortedData =
              Inr (freqList, freqCount, totalBars, longestRun)
          \<and> length freqList = length bucketDivs - 1
          \<and> sum_list freqList = int (length sortedData))
       \<and> (entry < bucket \<or> (\<forall>j. i < j \<and> j < length bucketDivs \<longrightarrow> bucketDivs ! j \<le> entry)
            \<longrightarrow> histogram_scan bucketDivs i bucket fl (entry # rest) =
                 histogram_scan bucketDivs i bucket (fl[i := fl ! i + 1]) rest)"
  using createHistogram_sum [OF assms, of cfg sortedData]
        histogram_scan_stays [of entry bucket i bucketDivs fl rest]
  by blast


theorem createHistogram_counts_every_timestamp_witness:
  "createHistogram default_config [0, 10, 20, 30, 40, 50, 60] [-5, 1, 2, 22, 55, 60, 61, 100]
     = Inr ([3, 0, 1, 0, 0, 4], [(3, 1), (1, 1), (4, 1)], 3, 2)
   \<and> sum_list [3, 0, 1, 0, 0, 4 :: int] = int (length [-5, 1, 2, 22, 55, 60, 61, 100 :: real])
   \<and> histogram_scan [0, 10, 20, 30, 40, 50, 60] 2 30 [3, 0, 1, 0, 0, 0] [70, 80]
       = [3, 0, 3, 0, 0, 0]"
  using createHistogram_counts_every_timestamp
          [where bucketDivs = "[0, 10, 20, 30, 40, 50, 60]" and cfg = default_config
             and sortedData = "[-5, 1, 2, 22, 55, 60, 61, 100]" and entry = 70 and bucket = 30
             and i = 2 and fl = "[3, 0, 1, 0, 0, 0]" and rest = "[80]"]
  by (simp add: createHistogram_def getFrequencyCounts_def Let_def run_step_def
        default_config_def np_ceil_def py_int_def upt_rec ceiling_one_div_numeral)


subsection \<open>Periodicity score\<close>



lemma top2_iff:
  "top2 S a b \<longleftrightarrow> b \<le> a \<and> (\<exists>R. mset S = {#a, b#} + R \<and> (\<forall>r\<in>#R. r \<le> b))"
proof
  assume t: "top2 S a b"
  then have sub: "{#a, b#} \<subseteq># mset S" unfolding top2_def by blast
  have "{#a, b#} + (mset S - {#a, b#}) = mset S"
    using sub by (rule subset_mset.add_diff_inverse)
  then have "mset S = {#a, b#} + (mset S - {#a, b#})" by (rule sym)
  then show "b \<le> a \<and> (\<exists>R. mset S = {#a, b#} + R \<and> (\<forall>r\<in>#R. r \<le> b))"
    using t unfolding top2_def by blast
next
  assume "b \<le> a \<and> (\<exists>R. mset S = {#a, b#} + R \<and> (\<forall>r\<in>#R. r \<le> b))"
  then obtain R where R: "b \<le> a" "mset S = {#a, b#} + R" "\<forall>r\<in>#R. r \<le> b" by blast
  have "{#a, b#} \<subseteq># mset S" unfolding R(2) by simp
  moreover have "mset S - {#a, b#} = R" unfolding R(2) by simp
  ultimately show "top2 S a b" using R(1,3) unfolding top2_def by simp
qed

lemma top2_step:
  assumes "top2 S l s"
  shows "top2 (S @ [v]) (if l < v then v else l) (if l < v then l else if s < v then v else s)"
proof -
  obtain R where R: "s \<le> l" "mset S = {#l, s#} + R" "\<forall>r\<in>#R. r \<le> s"
    using assms unfolding top2_iff by blast
  consider "l < v" | "\<not> l < v" "s < v" | "\<not> l < v" "\<not> s < v" by blast
  then show ?thesis
  proof cases
    case 1
    have "mset (S @ [v]) = {#v, l#} + (R + {#s#})" using R(2) by simp
    moreover have "\<forall>r\<in>#R + {#s#}. r \<le> l" using R(1,3) by auto
    ultimately show ?thesis using 1 unfolding top2_iff by auto
  next
    case 2
    have "mset (S @ [v]) = {#l, v#} + (R + {#s#})" using R(2) by simp
    moreover have "\<forall>r\<in>#R + {#s#}. r \<le> v" using R(3) 2 by auto
    ultimately show ?thesis using 2 unfolding top2_iff by auto
  next
    case 3
    have "mset (S @ [v]) = {#l, s#} + (R + {#v#})" using R(2) by simp
    moreover have "\<forall>r\<in>#R + {#v#}. r \<le> s" using R(3) 3 by auto
    ultimately show ?thesis using 3 R(1) unfolding top2_iff by auto
  qed
qed

lemma largest_scan_top2:
  "top2 S l s \<Longrightarrow> largest_scan l s vals = (a, b) \<Longrightarrow> top2 (S @ vals) a b"
proof (induction vals arbitrary: S l s)
  case Nil
  then show ?case by simp
next
  case (Cons v vals)
  have step: "top2 (S @ [v]) (if l < v then v else l) (if l < v then l else if s < v then v else s)"
    by (rule top2_step [OF Cons.prems(1)])
  have "largest_scan (if l < v then v else l) (if l < v then l else if s < v then v else s) vals
          = (a, b)"
    using Cons.prems(2) by (auto split: if_splits)
  from Cons.IH [OF step this] show ?case by simp
qed

lemma top2_rev_sort:
  assumes "top2 S a b"
  shows "\<exists>rest. rev (sort S) = a # b # rest"
proof -
  obtain R where R: "b \<le> a" "mset S = {#a, b#} + R" "\<forall>r\<in>#R. r \<le> b"
    using assms unfolding top2_iff by blast
  obtain Rl where Rl: "mset Rl = R" using ex_mset by blast
  have "sort S = sort Rl @ [b, a]"
  proof (rule properties_for_sort)
    show "mset (sort Rl @ [b, a]) = mset S" using R(2) Rl by simp
    have "\<forall>x\<in>set (sort Rl). x \<le> b" using R(3) Rl by auto
    then show "sorted (sort Rl @ [b, a])" using R(1) by (auto simp: sorted_append)
  qed
  then show ?thesis by simp
qed

lemma largest_scan_spec:
  assumes "\<forall>v\<in>set vals. 0 \<le> v"
  shows "largest_scan 0 0 vals = spec_two_greatest vals"
proof -
  obtain a b where ab: "largest_scan 0 0 vals = (a, b)" by (cases "largest_scan 0 0 vals") auto
  have "top2 [0, 0] 0 0" unfolding top2_iff by auto
  then have "top2 ([0, 0] @ vals) a b" using ab by (rule largest_scan_top2)
  then obtain rest where r: "rev (sort ([0, 0] @ vals)) = a # b # rest"
    using top2_rev_sort by blast
  have "sort ([0, 0] @ vals) = [0, 0] @ sort vals"
  proof (rule properties_for_sort)
    show "mset ([0, 0] @ sort vals) = mset ([0, 0] @ vals)" by simp
    show "sorted ([0, 0] @ sort vals)" using assms by auto
  qed
  then have "rev (sort vals) @ [0, 0] = a # b # rest" using r by simp
  then have "spec_two_greatest vals = (a, b)"
    unfolding spec_two_greatest_def
    by (cases "rev (sort vals)" rule: list.exhaust [case_names Nil Cons])
       (auto split: list.splits)
  then show ?thesis using ab by simp
qed


lemma createBuckets_24:
  "\<exists>divs. createBuckets start stop 24 = Inr divs \<and> length divs = 25"
  by (simp add: createBuckets_def Let_def)

lemma freqCount_incr_pos:
  "\<forall>v\<in>snd ` set fc. 1 \<le> v \<Longrightarrow> \<forall>v\<in>snd ` set (freqCount_incr fc k). 1 \<le> v"
  by (induction fc k rule: freqCount_incr.induct) auto

lemma run_step_freqCount:
  "snd (snd (run_step fl bs (l, c, fc) i)) =
     (if i < length fl \<and> 0 < fl ! (i mod length fl)
      then freqCount_incr fc
             (py_int (real_of_int \<lfloor>real_of_int (fl ! (i mod length fl)) / bs\<rfloor> * bs))
      else fc)"
  by (simp add: run_step_def Let_def)

lemma run_step_pos:
  assumes "\<forall>v\<in>snd ` set (snd (snd st)). 1 \<le> v"
  shows "\<forall>v\<in>snd ` set (snd (snd (run_step fl bs st i))). 1 \<le> v"
proof -
  obtain l c fc where st: "st = (l, c, fc)" by (cases st) auto
  have fc: "\<forall>v\<in>snd ` set fc. 1 \<le> v" using assms st by simp
  let ?k = "py_int (real_of_int \<lfloor>real_of_int (fl ! (i mod length fl)) / bs\<rfloor> * bs)"
  show ?thesis
  proof (cases "i < length fl \<and> 0 < fl ! (i mod length fl)")
    case True
    have "snd (snd (run_step fl bs st i)) = freqCount_incr fc ?k"
      unfolding st run_step_freqCount using True by (simp only: if_True simp_thms)
    then show ?thesis using freqCount_incr_pos [OF fc, of ?k] by (simp only: )
  next
    case False
    have "snd (snd (run_step fl bs st i)) = fc"
      unfolding st run_step_freqCount using False by (simp only: if_False simp_thms)
    then show ?thesis using fc by (simp only: )
  qed
qed

lemma foldl_run_step_pos:
  "\<forall>v\<in>snd ` set (snd (snd st)). 1 \<le> v
     \<Longrightarrow> \<forall>v\<in>snd ` set (snd (snd (foldl (run_step fl bs) st idxs))). 1 \<le> v"
proof (induction idxs arbitrary: st)
  case Nil
  then show ?case by simp
next
  case (Cons i idxs)
  have "\<forall>v\<in>snd ` set (snd (snd (run_step fl bs st i))). 1 \<le> v"
    by (rule run_step_pos [OF Cons.prems])
  from Cons.IH [OF this] show ?case by simp
qed

lemma getFrequencyCounts_pos:
  "\<forall>v\<in>snd ` set (fst (getFrequencyCounts cfg fl)). 1 \<le> v"
proof -
  obtain lc tb where b: "bars_scan 0 0 fl = (lc, tb)" by (cases "bars_scan 0 0 fl") auto
  let ?bs = "np_ceil (real_of_int lc * histModeSensitivity cfg)"
  let ?r = "foldl (run_step fl ?bs) (0, 0, []) [0 ..< length fl * 2]"
  have "\<forall>v\<in>snd ` set (snd (snd ?r)). 1 \<le> v"
    by (rule foldl_run_step_pos) simp
  moreover obtain l c fc where r: "?r = (l, c, fc)" by (cases ?r) auto
  ultimately show ?thesis
    by (simp add: getFrequencyCounts_def b Let_def r)
qed

lemma cv_score_defined:
  assumes "fl \<noteq> []" and "0 < sum_list fl"
  shows "\<exists>cv. calculateCoefficientOfVariationScore fl = Inr (Some cv)"
proof -
  have "real_of_int (sum_list fl) / real (length fl) \<noteq> 0" using assms by simp
  then show ?thesis
    using assms(1) by (simp add: calculateCoefficientOfVariationScore_def Let_def)
qed

lemma cv_score_Inr:
  assumes "fl \<noteq> []"
  shows "\<exists>cvScore. calculateCoefficientOfVariationScore fl = Inr cvScore"
  using assms by (simp add: calculateCoefficientOfVariationScore_def Let_def)

lemma getTsHistogramScore_max:
  "\<exists>bucketDivs freqList freqCount totalBars longestRun cvScore.
     getTsHistogramScore cfg start stop sortedData =
       Inr (bucketDivs, freqList, freqCount, totalBars, longestRun,
            py_max cvScore (Some (calculateBimodalFitScore cfg freqCount totalBars)))
   \<and> calculateCoefficientOfVariationScore freqList = Inr cvScore
   \<and> getFrequencyCounts cfg freqList = (freqCount, totalBars, longestRun)
   \<and> (\<forall>v\<in>snd ` set freqCount. 1 \<le> v)
   \<and> (sortedData \<noteq> [] \<longrightarrow>
        (\<exists>cv. cvScore = Some cv
            \<and> py_max cvScore (Some (calculateBimodalFitScore cfg freqCount totalBars))
                = Some (max cv (calculateBimodalFitScore cfg freqCount totalBars))))"
proof -
  obtain divs where divs: "createBuckets start stop 24 = Inr divs" "length divs = 25"
    using createBuckets_24 by blast
  let ?fl = "histogram_scan divs 0 (divs ! 1) (replicate (length divs - 1) 0) sortedData"
  have fl: "sum_list ?fl = int (length sortedData)" "length ?fl = 24"
    using histogram_scan_sum [of 0 "replicate (length divs - 1) 0" divs "divs ! 1" sortedData]
      divs(2) by (simp_all add: sum_list_replicate)
  obtain fc tb lr where g: "getFrequencyCounts cfg ?fl = (fc, tb, lr)"
    by (cases "getFrequencyCounts cfg ?fl") auto
  have h: "createHistogram cfg divs sortedData = Inr (?fl, fc, tb, lr)"
    using divs(2) g by (simp add: createHistogram_def Let_def)
  have ne: "?fl \<noteq> []" using fl(2) by auto
  obtain cvScore where cv: "calculateCoefficientOfVariationScore ?fl = Inr cvScore"
    using cv_score_Inr [OF ne] by blast
  have r: "getTsHistogramScore cfg start stop sortedData =
       Inr (divs, ?fl, fc, tb, lr, py_max cvScore (Some (calculateBimodalFitScore cfg fc tb)))"
    using h cv by (simp add: getTsHistogramScore_def divs(1) Let_def)
  have pos: "\<forall>v\<in>snd ` set fc. 1 \<le> v"
    using getFrequencyCounts_pos [of cfg ?fl] g by simp
  have some: "\<exists>c. cvScore = Some c
            \<and> py_max cvScore (Some (calculateBimodalFitScore cfg fc tb))
                = Some (max c (calculateBimodalFitScore cfg fc tb))" if "sortedData \<noteq> []"
  proof -
    have "0 < sum_list ?fl" using fl(1) that by simp
    then obtain c where "calculateCoefficientOfVariationScore ?fl = Inr (Some c)"
      using cv_score_defined [OF ne] by blast
    then have "cvScore = Some c" using cv by simp
    then show ?thesis by (auto simp: py_max_def np_gt_def max_def)
  qed
  show ?thesis using r cv g pos some by blast
qed

lemma bimodal_below_minimum:
  "totalBars < 11 \<Longrightarrow> calculateBimodalFitScore default_config fc totalBars = 0"
  by (simp add: calculateBimodalFitScore_def default_config_def np_ceil_def)

lemma bimodal_fit:
  assumes "11 \<le> totalBars" and "\<forall>v\<in>snd ` set fc. 0 \<le> v"
  shows "calculateBimodalFitScore default_config fc totalBars =
           (let (largest, secondLargest) = spec_two_greatest (map snd fc);
                fit = real_of_int (largest + secondLargest) / real_of_int (max (totalBars - 1) 1)
            in min (of_int \<lceil>fit * 1000\<rceil> / 1000) 1)"
proof -
  have "largest_scan 0 0 (map snd fc) = spec_two_greatest (map snd fc)"
    using assms(2) by (intro largest_scan_spec) auto
  then show ?thesis
    using assms(1)
    by (simp add: calculateBimodalFitScore_def default_config_def np_ceil_def Let_def min_def
          split: prod.splits)
qed


text \<open>
  Claim C6. The histogram score returned by \<open>getTsHistogramScore\<close> is the maximum of the
  coefficient-of-variation score and the bimodal-fit score (as numbers, whenever there is at
  least one timestamp). With the module thresholds the bimodal-fit score is 0 below 11 active
  buckets, and otherwise \<open>(largest + secondLargest) / max (totalBars - 1) 1\<close>, rounded up to
  three decimals and capped at 1, where \<open>largest\<close> and \<open>secondLargest\<close> are the two greatest
  counts of the frequency-of-frequencies dictionary (whose counts are all at least 1).
\<close>

theorem histogram_score_is_max_of_cv_and_bimodal:
  "(\<exists>bucketDivs freqList freqCount totalBars longestRun cvScore.
      getTsHistogramScore cfg start stop sortedData =
        Inr (bucketDivs, freqList, freqCount, totalBars, longestRun,
             py_max cvScore (Some (calculateBimodalFitScore cfg freqCount totalBars)))
    \<and> calculateCoefficientOfVariationScore freqList = Inr cvScore
    \<and> getFrequencyCounts cfg freqList = (freqCount, totalBars, longestRun)
    \<and> (\<forall>v\<in>snd ` set freqCount. 1 \<le> v)
    \<and> (sortedData \<noteq> [] \<longrightarrow>
         (\<exists>cv. cvScore = Some cv
             \<and> py_max cvScore (Some (calculateBimodalFitScore cfg freqCount totalBars))
                 = Some (max cv (calculateBimodalFitScore cfg freqCount totalBars)))))
   \<and> (bars < 11 \<longrightarrow> calculateBimodalFitScore default_config fc bars = 0)
   \<and> (11 \<le> bars \<and> (\<forall>v\<in>snd ` set fc. 0 \<le> v) \<longrightarrow>
        calculateBimodalFitScore default_config fc bars =
          (let (largest, secondLargest) = spec_two_greatest (map snd fc);
               fit = real_of_int (largest + secondLargest) / real_of_int (max (bars - 1) 1)
           in min (of_int \<lceil>fit * 1000\<rceil> / 1000) 1))"
  using getTsHistogramScore_max [of cfg start stop sortedData]
        bimodal_below_minimum [of bars fc] bimodal_fit [of bars fc]
  by blast

theorem histogram_score_is_max_of_cv_and_bimodal_witness:
  "(\<exists>bucketDivs freqList freqCount totalBars longestRun cv.
      getTsHistogramScore default_config 0 24000 [500, 1500] =
        Inr (bucketDivs, freqList, freqCount, totalBars, longestRun,
             Some (max cv (calculateBimodalFitScore default_config freqCount totalBars)))
    \<and> calculateCoefficientOfVariationScore freqList = Inr (Some cv))
   \<and> calculateBimodalFitScore default_config [(1, 5), (3, 4), (7, 3)] 10 = 0
   \<and> calculateBimodalFitScore default_config [(1, 5), (3, 4), (7, 3)] 12 = 819 / 1000
   \<and> calculateBimodalFitScore default_config [(1, 3), (3, 4), (7, 8)] 12 = 1"
proof -
  have a: "\<exists>bucketDivs freqList freqCount totalBars longestRun cv.
      getTsHistogramScore default_config 0 24000 [500, 1500] =
        Inr (bucketDivs, freqList, freqCount, totalBars, longestRun,
             Some (max cv (calculateBimodalFitScore default_config freqCount totalBars)))
    \<and> calculateCoefficientOfVariationScore freqList = Inr (Some cv)"
    using histogram_score_is_max_of_cv_and_bimodal [of default_config 0 24000 "[500, 1500]" 0 "[]"]
    by fastforce
  have b: "calculateBimodalFitScore default_config [(1, 5), (3, 4), (7, 3)] 10 = 0"
    using histogram_score_is_max_of_cv_and_bimodal
            [of default_config 0 24000 "[]" 10 "[(1, 5), (3, 4), (7, 3)]"]
    by simp
  have c: "calculateBimodalFitScore default_config [(1, 5), (3, 4), (7, 3)] 12 = 819 / 1000"
    using histogram_score_is_max_of_cv_and_bimodal
            [of default_config 0 24000 "[]" 12 "[(1, 5), (3, 4), (7, 3)]"]
    by (simp add: spec_two_greatest_def)
  have d: "calculateBimodalFitScore default_config [(1, 3), (3, 4), (7, 8)] 12 = 1"
    using histogram_score_is_max_of_cv_and_bimodal
            [of default_config 0 24000 "[]" 12 "[(1, 3), (3, 4), (7, 8)]"]
    by (simp add: spec_two_greatest_def)
  show ?thesis using a b c d by blast
qed


subsection \<open>Longest circular run\<close>


lemma linear_run_Nil [simp]: "linear_run [] i k \<longleftrightarrow> i = 0 \<and> k = 0"
  by (auto simp: linear_run_def)

lemma linear_run_zero [simp]: "linear_run xs i 0 \<longleftrightarrow> i \<le> length xs"
  by (simp add: linear_run_def)

lemma linear_run_Cons_Suc [simp]: "linear_run (x # xs) (Suc i) k \<longleftrightarrow> linear_run xs i k"
  by (simp add: linear_run_def)

lemma linear_run_Cons_0_Suc [simp]:
  "linear_run (x # xs) 0 (Suc k) \<longleftrightarrow> 0 < x \<and> linear_run xs 0 k"
  by (auto simp: linear_run_def All_less_Suc2)

lemma linear_run_shorter: "linear_run xs i k \<Longrightarrow> k' \<le> k \<Longrightarrow> linear_run xs i k'"
  by (auto simp: linear_run_def)

lemma run_scan_upper:
  "0 \<le> c \<Longrightarrow> run_scan l c xs = (l', c') \<Longrightarrow>
     l \<le> max l' c' \<and> (\<forall>k. linear_run xs 0 k \<longrightarrow> c + int k \<le> max l' c')
     \<and> (\<forall>i k. linear_run xs i k \<longrightarrow> int k \<le> max l' c')"
proof (induction xs arbitrary: l c)
  case Nil
  then show ?case by auto
next
  case (Cons x xs)
  show ?case
  proof (cases "0 < x")
    case True
    then have r: "run_scan l (c + 1) xs = (l', c')" using Cons.prems(2) by simp
    have c1: "0 \<le> c + 1" using Cons.prems(1) by simp
    note ih = Cons.IH [OF c1 r]
    have a: "l \<le> max l' c'" using ih by blast
    have b: "c + int k \<le> max l' c'" if "linear_run (x # xs) 0 k" for k
    proof (cases k)
      case 0
      have "linear_run xs 0 0" by simp
      then have "c + 1 + int 0 \<le> max l' c'" using ih by blast
      then show ?thesis using 0 by simp
    next
      case (Suc k')
      then have "linear_run xs 0 k'" using that by simp
      then have "c + 1 + int k' \<le> max l' c'" using ih by blast
      then show ?thesis using Suc by simp
    qed
    have d: "int k \<le> max l' c'" if "linear_run (x # xs) i k" for i k
    proof (cases i)
      case 0
      then have "c + int k \<le> max l' c'" using b that by blast
      then show ?thesis using Cons.prems(1) by linarith
    next
      case (Suc i')
      then have "linear_run xs i' k" using that by simp
      then show ?thesis using ih by blast
    qed
    show ?thesis using a b d by blast
  next
    case False
    then have r: "run_scan (if l < c then c else l) 0 xs = (l', c')"
      using Cons.prems(2) by simp
    note ih = Cons.IH [OF order_refl r]
    have a: "l \<le> max l' c'" "c \<le> max l' c'" using ih by (auto split: if_splits)
    have b: "c + int k \<le> max l' c'" if "linear_run (x # xs) 0 k" for k
    proof (cases k)
      case 0
      then show ?thesis using a by simp
    next
      case (Suc k')
      then show ?thesis using that False by simp
    qed
    have d: "int k \<le> max l' c'" if "linear_run (x # xs) i k" for i k
    proof (cases i)
      case 0
      then have "c + int k \<le> max l' c'" using b that by blast
      then show ?thesis using Cons.prems(1) by linarith
    next
      case (Suc i')
      then have "linear_run xs i' k" using that by simp
      then show ?thesis using ih by blast
    qed
    show ?thesis using a b d by blast
  qed
qed

lemma run_scan_achieved:
  "run_scan l c xs = (l', c') \<Longrightarrow>
     max l' c' = l \<or> (\<exists>k. linear_run xs 0 k \<and> max l' c' = c + int k)
     \<or> (\<exists>i k. linear_run xs i k \<and> max l' c' = int k)"
proof (induction xs arbitrary: l c)
  case Nil
  have "linear_run [] 0 0" by simp
  moreover have "max l' c' = l \<or> max l' c' = c + int 0" using Nil by auto
  ultimately show ?case by blast
next
  case (Cons x xs)
  show ?case
  proof (cases "0 < x")
    case True
    then have r: "run_scan l (c + 1) xs = (l', c')" using Cons.prems by simp
    from Cons.IH [OF r] consider "max l' c' = l"
      | k where "linear_run xs 0 k" "max l' c' = c + 1 + int k"
      | i k where "linear_run xs i k" "max l' c' = int k" by blast
    then show ?thesis
    proof cases
      case 1
      then show ?thesis by blast
    next
      case 2
      then have "linear_run (x # xs) 0 (Suc k)" "max l' c' = c + int (Suc k)"
        using True by simp_all
      then show ?thesis by blast
    next
      case 3
      then have "linear_run (x # xs) (Suc i) k" by simp
      then show ?thesis using 3(2) by blast
    qed
  next
    case False
    then have r: "run_scan (if l < c then c else l) 0 xs = (l', c')" using Cons.prems by simp
    from Cons.IH [OF r] consider "max l' c' = (if l < c then c else l)"
      | k where "linear_run xs 0 k" "max l' c' = 0 + int k"
      | i k where "linear_run xs i k" "max l' c' = int k" by blast
    then show ?thesis
    proof cases
      case 1
      have "linear_run (x # xs) 0 0" by simp
      moreover have "max l' c' = l \<or> max l' c' = c + int 0" using 1 by (auto split: if_splits)
      ultimately show ?thesis by blast
    next
      case 2
      then have "linear_run (x # xs) (Suc 0) k" "max l' c' = int k" by simp_all
      then show ?thesis by blast
    next
      case 3
      then have "linear_run (x # xs) (Suc i) k" by simp
      then show ?thesis using 3(2) by blast
    qed
  qed
qed

lemma run_scan_longest:
  assumes "run_scan 0 0 xs = (l', c')"
  shows "\<exists>m. max l' c' = int m \<and> (\<exists>i. linear_run xs i m)
             \<and> (\<forall>i k. linear_run xs i k \<longrightarrow> k \<le> m)"
proof -
  have up: "\<forall>i k. linear_run xs i k \<longrightarrow> int k \<le> max l' c'"
    using run_scan_upper [OF order_refl assms] by blast
  have "linear_run xs 0 0" by simp
  then obtain i m where m: "linear_run xs i m" "max l' c' = int m"
    using run_scan_achieved [OF assms] by fastforce
  have "\<forall>i k. linear_run xs i k \<longrightarrow> k \<le> m" using up m(2) by simp
  then show ?thesis using m by blast
qed


lemma run_step_runs:
  "run_step fs bs (l, c, fc) i = (l', c', fc') \<Longrightarrow>
     (if 0 < fs ! (i mod length fs) then (l' = l \<and> c' = c + 1)
      else (l' = (if l < c then c else l) \<and> c' = 0))"
  by (auto simp: run_step_def Let_def split: if_splits)

lemma foldl_run_step_scan:
  "foldl (run_step fs bs) (l, c, fc) idxs = (l', c', fc') \<Longrightarrow>
     run_scan l c (map (\<lambda>i. fs ! (i mod length fs)) idxs) = (l', c')"
proof (induction idxs arbitrary: l c fc)
  case Nil
  then show ?case by simp
next
  case (Cons i idxs)
  obtain l1 c1 fc1 where s: "run_step fs bs (l, c, fc) i = (l1, c1, fc1)"
    by (cases "run_step fs bs (l, c, fc) i") auto
  have "foldl (run_step fs bs) (l1, c1, fc1) idxs = (l', c', fc')"
    using Cons.prems s by simp
  then have ih: "run_scan l1 c1 (map (\<lambda>i. fs ! (i mod length fs)) idxs) = (l', c')"
    by (rule Cons.IH)
  show ?case
  proof (cases "0 < fs ! (i mod length fs)")
    case True
    then have "l1 = l \<and> c1 = c + 1" using run_step_runs [OF s] by simp
    then show ?thesis using ih True by simp
  next
    case False
    then have "l1 = (if l < c then c else l) \<and> c1 = 0" using run_step_runs [OF s] by simp
    then show ?thesis using ih False by simp
  qed
qed

lemma circular_as_linear:
  assumes "i < length fs" and "k \<le> length fs" and "spec_circular_run fs i k"
  shows "linear_run (map (\<lambda>i. fs ! (i mod length fs)) [0 ..< length fs * 2]) i k"
  using assms by (auto simp: linear_run_def spec_circular_run_def)

lemma linear_as_circular:
  assumes "linear_run (map (\<lambda>i. fs ! (i mod length fs)) [0 ..< length fs * 2]) i k"
  shows "spec_circular_run fs (i mod length fs) k"
proof -
  have "0 < fs ! ((i mod length fs + j) mod length fs)" if "j < k" for j
  proof -
    have lt: "i + j < length fs * 2" using assms that by (simp add: linear_run_def)
    have "0 < map (\<lambda>i. fs ! (i mod length fs)) [0 ..< length fs * 2] ! (i + j)"
      using assms that unfolding linear_run_def by blast
    then have "0 < fs ! ((i + j) mod length fs)" using lt by simp
    then show ?thesis by (simp add: mod_add_left_eq)
  qed
  then show ?thesis by (simp add: spec_circular_run_def)
qed

lemma getFrequencyCounts_longestRun:
  "snd (snd (getFrequencyCounts cfg fs)) = int (spec_longest_circular_run fs)"
proof -
  let ?n = "length fs"
  let ?ds = "map (\<lambda>i. fs ! (i mod ?n)) [0 ..< ?n * 2]"
  let ?A = "insert 0 {k \<in> {0 .. ?n}. \<exists>i\<in>{0 ..< ?n}. spec_circular_run fs i k}"
  obtain lc tb where b: "bars_scan 0 0 fs = (lc, tb)" by (cases "bars_scan 0 0 fs") auto
  let ?bs = "np_ceil (real_of_int lc * histModeSensitivity cfg)"
  obtain l c fc where f: "foldl (run_step fs ?bs) (0, 0, []) [0 ..< ?n * 2] = (l, c, fc)"
    by (cases "foldl (run_step fs ?bs) (0, 0, []) [0 ..< ?n * 2]") auto
  have rs: "run_scan 0 0 ?ds = (l, c)" by (rule foldl_run_step_scan [OF f])
  obtain m i0 where m: "max l c = int m" "linear_run ?ds i0 m"
      "\<forall>i k. linear_run ?ds i k \<longrightarrow> k \<le> m"
    using run_scan_longest [OF rs] by blast
  have code: "snd (snd (getFrequencyCounts cfg fs)) = int (min ?n m)"
    using m(1) by (simp add: getFrequencyCounts_def b f Let_def min_def max_def split: if_splits)
  have "Max ?A = min ?n m"
  proof (rule Max_eqI)
    show "finite ?A" by simp
    show "y \<le> min ?n m" if yA: "y \<in> ?A" for y
    proof (cases "y = 0")
      case True
      then show ?thesis by simp
    next
      case False
      then obtain i where i: "y \<le> ?n" "i < ?n" "spec_circular_run fs i y"
        using yA by auto
      have "linear_run ?ds i y" by (rule circular_as_linear [OF i(2) i(1) i(3)])
      then have "y \<le> m" using m(3) by blast
      then show ?thesis using i(1) by simp
    qed
    show "min ?n m \<in> ?A"
    proof (cases "min ?n m = 0")
      case True
      then show ?thesis by simp
    next
      case False
      then have pos: "0 < ?n" by auto
      have "linear_run ?ds i0 (min ?n m)" by (rule linear_run_shorter [OF m(2)]) simp
      then have "spec_circular_run fs (i0 mod ?n) (min ?n m)" by (rule linear_as_circular)
      moreover have "i0 mod ?n < ?n" using pos by simp
      ultimately show ?thesis by auto
    qed
  qed
  then show ?thesis using code by (simp add: spec_longest_circular_run_def)
qed

lemma spec_longest_circular_run_le: "spec_longest_circular_run fs \<le> length fs"
  unfolding spec_longest_circular_run_def by (subst Max_le_iff) auto


text \<open>
  Claim C4. The longest run returned by \<open>getFrequencyCounts\<close> is the length of the longest
  circular run of buckets with a positive frequency, where a run may continue from the last
  bucket into the first and is never longer than the number of buckets. For the frequencies
  \<open>[1, 0, 1, 1, 0, 1]\<close> it is 2, not 3.
\<close>

theorem getFrequencyCounts_longest_circular_run:
  "snd (snd (getFrequencyCounts cfg fs)) = int (spec_longest_circular_run fs)
   \<and> spec_longest_circular_run fs \<le> length fs
   \<and> snd (snd (getFrequencyCounts cfg [1, 0, 1, 1, 0, 1])) = 2
   \<and> snd (snd (getFrequencyCounts cfg [1, 0, 1, 1, 0, 1])) \<noteq> 3"
proof -
  have "snd (snd (getFrequencyCounts cfg [1, 0, 1, 1, 0, 1])) = 2"
    by (simp add: getFrequencyCounts_def Let_def run_step_def upt_rec split: prod.splits)
  then show ?thesis
    using getFrequencyCounts_longestRun [of cfg fs] spec_longest_circular_run_le [of fs]
    by simp
qed

theorem getFrequencyCounts_longest_circular_run_witness:
  "spec_longest_circular_run [1, 0, 1, 1, 0, 1] = 2
   \<and> spec_circular_run [1, 0, 1, 1, 0, 1] 5 2
   \<and> snd (snd (getFrequencyCounts default_config [3, 2, 0, 0, 1])) = 3
   \<and> spec_longest_circular_run [3, 2, 0, 0, 1] = 3
   \<and> snd (snd (getFrequencyCounts default_config [2, 2, 2])) = 3
   \<and> spec_longest_circular_run [2, 2, 2] = 3"
proof -
  have a: "int (spec_longest_circular_run [1, 0, 1, 1, 0, 1]) = 2"
    using getFrequencyCounts_longest_circular_run [of default_config "[1, 0, 1, 1, 0, 1]"]
    by simp
  have b: "spec_circular_run [1, 0, 1, 1, 0, 1] 5 2"
    by (simp add: spec_circular_run_def atLeast0_lessThan_Suc numeral_2_eq_2)
  have c: "snd (snd (getFrequencyCounts default_config [3, 2, 0, 0, 1])) = 3"
    by (simp add: getFrequencyCounts_def Let_def run_step_def upt_rec split: prod.splits)
  have c': "int (spec_longest_circular_run [3, 2, 0, 0, 1]) = 3"
    using getFrequencyCounts_longest_circular_run [of default_config "[3, 2, 0, 0, 1]"] c
    by simp
  have d: "snd (snd (getFrequencyCounts default_config [2, 2, 2])) = 3"
    by (simp add: getFrequencyCounts_def Let_def run_step_def upt_rec split: prod.splits)
  have d': "int (spec_longest_circular_run [2, 2, 2]) = 3"
    using getFrequencyCounts_longest_circular_run [of default_config "[2, 2, 2]"] d
    by simp
  show ?thesis using a b c c' d d' by simp
qed


subsection \<open>The whole analysis\<close>

text \<open>
  When \<open>analyze\<close> returns, its result is \<open>analyze_score\<close> of the timing, size, duration
  and histogram scores that the scorers returned.
\<close>


lemma analyze_composite:
  assumes "analyze cfg tsData dsData minTsStartOfHour minTs maxTs = Inr r"
  shows "\<exists>tsScore tsSkew tsMadm dsScore dsSkew dsMadm dsSizes dsCounts dsMode dsModeCount
            bucketDivs freqList freqCount totalBars longestRun histScore
            coverage consistency durScore.
           calculateDistinctCounts (map real_of_int dsData) =
             Inr (dsSizes, dsCounts, dsMode, dsModeCount)
         \<and> getTsScore (sort tsData) (int (length tsData) - 1) = Inr (tsScore, tsSkew, tsMadm)
         \<and> getDsScore (map real_of_int (sort dsData)) dsMode = Inr (dsScore, dsSkew, dsMadm)
         \<and> getTsHistogramScore cfg minTs maxTs (sort tsData) =
             Inr (bucketDivs, freqList, freqCount, totalBars, longestRun, histScore)
         \<and> getDurationScore cfg minTs maxTs (real_of_int (py_int (tsData ! 0)))
               (real_of_int (py_int (tsData ! (length tsData - 1)))) totalBars longestRun =
             Inr (coverage, consistency, durScore)
         \<and> r = (case (tsScore, dsScore, histScore) of
                  (Some t, Some d, Some h) \<Rightarrow> Some (analyze_score t d durScore h)
                | _ \<Rightarrow> None)"
  using assms unfolding analyze_def Let_def
  by (simp split: if_splits sum.splits prod.splits)

end
